theory Spec2Isabelle
  imports Complex_Main "HOL-Library.Monad_Syntax"
begin

section \<open>Python strings\<close>

text \<open>
  A Python \<open>str\<close> is modelled as a \<open>string\<close>; a character is a code point below 256.
  The full-width colon of the third message pattern (code point 65306) lies outside that
  range, so the class of the two colons of the source is the plain colon here.
  Times are seconds, as \<open>real\<close> numbers.
\<close>

definition newline :: char where
  "newline = CHR 0x0A"

definition isspace :: "char \<Rightarrow> bool" where
  \<comment> \<open>\<open>str.isspace\<close> and the class \<open>\s\<close> of \<open>re\<close> on code points below 256\<close>
  "isspace c = (c \<in> {CHR 0x09, CHR 0x0A, CHR 0x0B, CHR 0x0C, CHR 0x0D, CHR 0x1C, CHR 0x1D,
                      CHR 0x1E, CHR 0x1F, CHR 0x20, CHR 0x85, CHR 0xA0})"


definition rstrip :: "string \<Rightarrow> string" where
  "rstrip s = rev (dropWhile isspace (rev s))"


fun split_nl :: "string \<Rightarrow> string list" where
  \<comment> \<open>\<open>s.split('\n')\<close>\<close>
  "split_nl [] = [[]]"
| "split_nl (c # cs) =
     (if c = newline then [] # split_nl cs
      else (case split_nl cs of [] \<Rightarrow> [[c]] | l # ls \<Rightarrow> (c # l) # ls))"

fun join_nl :: "string list \<Rightarrow> string" where
  \<comment> \<open>\<open>"\n".join(ls)\<close>\<close>
  "join_nl [] = []"
| "join_nl [l] = l"
| "join_nl (l # ls) = l @ newline # join_nl ls"

definition upper_char :: "char \<Rightarrow> char" where
  "upper_char c =
     (case map_of (zip ''abcdefghijklmnopqrstuvwxyz'' ''ABCDEFGHIJKLMNOPQRSTUVWXYZ'') c of
        Some u \<Rightarrow> u | None \<Rightarrow> c)"


definition upper :: "string \<Rightarrow> string" where
  \<comment> \<open>\<open>str.upper\<close> on the ASCII letters; the source compares the result with ASCII words only\<close>
  "upper s = map upper_char s"


section \<open>The screen grid and its rendering\<close>

text \<open>
  \<open>self._screen\<close> is a \<open>pyte.Screen\<close>, a class that is not part of the sources. The source
  reads its fields \<open>columns\<close> and \<open>lines\<close> and its cells as \<open>buffer[y][x].data\<close>; the
  spec describes it as a grid of characters with a cursor.
\<close>

record screen =
  columns :: nat
  lines :: nat
  buffer :: "nat \<Rightarrow> nat \<Rightarrow> string"
  cursor_x :: nat
  cursor_y :: nat

definition new_screen :: "nat \<Rightarrow> nat \<Rightarrow> screen" where
  \<comment> \<open>Modelled from the spec: the constructor \<open>pyte.Screen(columns, lines)\<close> is not part of
      the sources. Every cell holds a space and the cursor is at the origin.\<close>
  "new_screen w h = \<lparr>columns = w, lines = h, buffer = (\<lambda>y x. '' ''), cursor_x = 0, cursor_y = 0\<rparr>"

definition printable :: "char \<Rightarrow> bool" where
  "printable c = (32 \<le> (of_char c :: nat) \<and> (of_char c :: nat) \<le> 126)"

definition put_char :: "char \<Rightarrow> screen \<Rightarrow> screen" where
  \<comment> \<open>Modelled from the spec: the emulator behind \<open>feed\<close> is not part of the sources. A plain
      character is placed at the cursor, which moves one column right; a newline moves the
      cursor to the start of the next row; any other byte is dropped. A character whose
      cell lies outside the grid is not stored.\<close>
  "put_char c scr =
     (if c = newline then scr\<lparr>cursor_x := 0, cursor_y := cursor_y scr + 1\<rparr>
      else if printable c then
        (if cursor_x scr < columns scr \<and> cursor_y scr < lines scr
         then scr\<lparr>buffer := (buffer scr)(cursor_y scr := (buffer scr (cursor_y scr))(cursor_x scr := [c])),
                  cursor_x := cursor_x scr + 1\<rparr>
         else scr\<lparr>cursor_x := cursor_x scr + 1\<rparr>)
      else scr)"

definition feed :: "screen \<Rightarrow> string \<Rightarrow> screen" where
  \<comment> \<open>Modelled from the spec: \<open>feed(bytes)\<close> consumes the output one character at a time.\<close>
  "feed scr data = fold put_char data scr"

definition row_text :: "screen \<Rightarrow> nat \<Rightarrow> string" where
  \<comment> \<open>the inner loop of \<open>get_screen_text\<close>: \<open>line += char.data\<close> for every column\<close>
  "row_text scr y = concat (map (\<lambda>x. buffer scr y x) [0..<columns scr])"

definition get_screen_text :: "screen option \<Rightarrow> string" where
  "get_screen_text sc =
     (case sc of
        None \<Rightarrow> []
      | Some scr \<Rightarrow> join_nl (map (\<lambda>y. rstrip (row_text scr y)) [0..<lines scr]))"

definition rstrip_spaces :: "string \<Rightarrow> string" where
  \<comment> \<open>trailing-space trimming, the words of the spec for what \<open>render\<close> does to a row\<close>
  "rstrip_spaces s = rev (dropWhile (\<lambda>c. c = CHR '' '') (rev s))"

section \<open>Message patterns\<close>






record message =
  sender :: string
  content :: string
  room :: string
  timestamp :: real
  raw :: string




section \<open>The session and its environment\<close>

text \<open>
  Everything outside the program is an oracle, read through a counter kept in the session:
  the readings of \<open>time.time()\<close>, what each \<open>reader.read(4096)\<close> under its 0.1 s
  \<open>wait_for\<close> gives, how each \<open>asyncssh.connect\<close>, \<open>create_process\<close> and
  \<open>writer.write\<close>/\<open>drain\<close> ends, the result of \<open>re.search\<close> with the flags
  \<open>IGNORECASE | MULTILINE\<close> (\<open>None\<close> when it raises \<open>re.error\<close>), and the element that
  \<open>set.pop()\<close> removes. A call of \<open>asyncio.sleep\<close> changes nothing here, since the clock
  is an oracle; only the sleep of the reconnect supervisor is recorded, in the trace.
  The tasks of a session are taken one at a time: the read lock and the cancellation of
  a task are not modelled.
\<close>

datatype read_event =
    Chunk string    \<comment> \<open>the read returned this text in time; the empty text is end of file\<close>
  | ReadTimeout     \<comment> \<open>\<open>asyncio.TimeoutError\<close>: nothing came for 0.1 s\<close>
  | ReadFailed      \<comment> \<open>any other exception of the read\<close>

datatype connect_event = Established | ConnectTimeout | ConnectFailed

datatype exn = ReError

record env =
  clock :: "nat \<Rightarrow> real"
  reads :: "nat \<Rightarrow> read_event"
  connects :: "nat \<Rightarrow> connect_event"
  creates :: "nat \<Rightarrow> bool"
  writes :: "nat \<Rightarrow> bool"
  re_search :: "string \<Rightarrow> string \<Rightarrow> bool option"
  set_pop :: "string set \<Rightarrow> string"

datatype event =
    Wrote string           \<comment> \<open>text accepted by \<open>writer.write\<close> and drained\<close>
  | Backoff int            \<comment> \<open>\<open>asyncio.sleep(retry_delay)\<close> of the reconnect supervisor\<close>
  | Notified string real   \<comment> \<open>the disconnect callback, called with the id and the idle time\<close>
  | Dispatched message     \<comment> \<open>the message callback, called with a message\<close>

record connection_config =
  host :: string
  port :: int
  username :: string
  terminal_width :: nat
  terminal_height :: nat
  is_persistent :: bool
  idle_timeout :: int

record command_result =
  success :: bool
  output_text :: string   \<comment> \<open>the field \<open>output\<close> of the source\<close>
  error :: string
  exit_code :: int
  duration :: real

record connection_state =
  last_activity :: real
  reconnect_count :: int
  last_room :: string
  is_connected :: bool
  disconnect_notified :: bool

text \<open>
  The fields of \<open>AsyncSSHConnection\<close> and \<open>COMChatConnection\<close>. A connection, process,
  writer or reader is the number of the call that made it; a task or callback is the flag
  that it is there. The last six fields are the counters of the oracle and the trace of
  what the program did to the outside.
\<close>

record session =
  config :: connection_config
  connection_id :: string
  conn :: "nat option"
  process :: "nat option"
  writer :: "nat option"
  reader :: "nat option"
  connected :: bool
  in_shell :: bool
  expect_buffer :: string
  screen :: "screen option"
  state :: connection_state
  keepalive_task :: bool
  idle_check_task :: bool
  disconnect_callback :: bool
  reconnect_callback :: bool
  in_com :: bool
  message_callback :: bool
  monitoring :: bool
  ticks :: nat
  nreads :: nat
  nconnects :: nat
  ncreates :: nat
  nwrites :: nat
  trace :: "event list"

definition time_time :: "env \<Rightarrow> session \<Rightarrow> real \<times> session" where
  "time_time e s = (clock e (ticks s), s\<lparr>ticks := ticks s + 1\<rparr>)"

definition update_activity :: "env \<Rightarrow> session \<Rightarrow> session" where
  "update_activity e s =
     (let (now, s1) = time_time e s
      in s1\<lparr>state := (state s1)\<lparr>last_activity := now, disconnect_notified := False\<rparr>\<rparr>)"

definition connect :: "env \<Rightarrow> session \<Rightarrow> bool \<times> session" where
  "connect e s =
     (if connected s then (True, s)
      else (case connects e (nconnects s) of
              Established \<Rightarrow>
                (let s1 = s\<lparr>nconnects := nconnects s + 1, conn := Some (nconnects s),
                            connected := True\<rparr>;
                     (now, s2) = time_time e s1;
                     s3 = s2\<lparr>state := (state s2)\<lparr>is_connected := True, last_activity := now,
                                 reconnect_count := reconnect_count (state s2) + 1\<rparr>\<rparr>;
                     s4 = s3\<lparr>keepalive_task := True\<rparr>
                 in (True, if \<not> is_persistent (config s4) then s4\<lparr>idle_check_task := True\<rparr>
                           else s4))
            | ConnectTimeout \<Rightarrow> (False, s\<lparr>nconnects := nconnects s + 1\<rparr>)
            | ConnectFailed \<Rightarrow> (False, s\<lparr>nconnects := nconnects s + 1, connected := False\<rparr>)))"




definition notifications :: "session \<Rightarrow> event list" where
  "notifications s = filter (\<lambda>ev. case ev of Notified i t \<Rightarrow> True | _ \<Rightarrow> False) (trace s)"

partial_function (option) read_loop :: "env \<Rightarrow> string \<Rightarrow> session \<Rightarrow> (string \<times> session) option" where
  "read_loop e out s =
     (case reads e (nreads s) of
        Chunk data \<Rightarrow>
          (if data = [] then Some (out, s\<lparr>nreads := nreads s + 1\<rparr>)
           else read_loop e (out @ data)
                  (s\<lparr>nreads := nreads s + 1,
                     expect_buffer := expect_buffer s @ data,
                     screen := map_option (\<lambda>scr. feed scr data) (screen s)\<rparr>))
      | ReadTimeout \<Rightarrow> Some (out, s\<lparr>nreads := nreads s + 1\<rparr>)
      | ReadFailed \<Rightarrow> Some (out, s\<lparr>nreads := nreads s + 1\<rparr>))"

declare read_loop.simps [code]

definition read_output :: "env \<Rightarrow> session \<Rightarrow> (string \<times> session) option" where
  \<comment> \<open>\<open>_read_output\<close>; its parameter \<open>timeout\<close> is never used by the source\<close>
  "read_output e s =
     (if reader s = None then Some ([], s)
      else do {
        (out, s1) \<leftarrow> read_loop e [] s;
        Some (out, if out \<noteq> [] then update_activity e s1 else s1)
      })"

partial_function (option) expect_loop :: "env \<Rightarrow> string \<Rightarrow> real \<Rightarrow> real \<Rightarrow> session
    \<Rightarrow> ((exn + bool) \<times> session) option" where
  "expect_loop e pattern timeout start_time s =
     (if clock e (ticks s) - start_time < timeout then
        do {
          (out, s1) \<leftarrow> read_output e (s\<lparr>ticks := ticks s + 1\<rparr>);
          (case re_search e pattern (expect_buffer s1) of
             None \<Rightarrow> Some (Inl ReError, s1)
           | Some found \<Rightarrow>
               if found then Some (Inr True, s1)
               else expect_loop e pattern timeout start_time s1)
        }
      else Some (Inr False, s\<lparr>ticks := ticks s + 1\<rparr>))"

declare expect_loop.simps [code]

definition expect :: "env \<Rightarrow> string \<Rightarrow> real \<Rightarrow> session \<Rightarrow> ((exn + bool) \<times> session) option" where
  "expect e pattern timeout s =
     (let (start_time, s1) = time_time e s in expect_loop e pattern timeout start_time s1)"

definition send :: "env \<Rightarrow> string \<Rightarrow> bool \<Rightarrow> session \<Rightarrow> bool \<times> session" where
  "send e data add_newline s =
     (if writer s = None then (False, s)
      else if writes e (nwrites s) then
        (True, update_activity e
                 (s\<lparr>nwrites := nwrites s + 1,
                    trace := trace s @ [Wrote (if add_newline then data @ [newline] else data)]\<rparr>))
      else (False, s\<lparr>nwrites := nwrites s + 1\<rparr>))"

definition send_and_expect :: "env \<Rightarrow> string \<Rightarrow> string \<Rightarrow> real \<Rightarrow> session
    \<Rightarrow> ((exn + command_result) \<times> session) option" where
  "send_and_expect e command expect_pattern timeout s =
     (let (start_time, s0) = time_time e s;
          s1 = s0\<lparr>expect_buffer := []\<rparr>;
          (sent, s2) = send e command True s1
      in if \<not> sent then
           (let (now, s3) = time_time e s2
            in Some (Inr \<lparr>success = False, output_text = [], error = ''Failed to send command'',
                          exit_code = 0, duration = now - start_time\<rparr>, s3))
         else do {
           (r, s3) \<leftarrow> expect e expect_pattern timeout s2;
           (case r of
              Inl x \<Rightarrow> Some (Inl x, s3)
            | Inr found \<Rightarrow>
                (let (now, s4) = time_time e s3
                 in Some (Inr \<lparr>success = found, output_text = expect_buffer s3,
                               error = (if found then [] else ''Pattern not found: '' @ expect_pattern),
                               exit_code = 0, duration = now - start_time\<rparr>, s4)))
         })"

section \<open>The interactive shell and the chat program\<close>

definition invoke_shell :: "env \<Rightarrow> session \<Rightarrow> (bool \<times> session) option" where
  "invoke_shell e s =
     (if \<not> connected s then Some (False, s)
      else if \<not> creates e (ncreates s) then Some (False, s\<lparr>ncreates := ncreates s + 1\<rparr>)
      else
        (let s1 = s\<lparr>ncreates := ncreates s + 1, process := Some (ncreates s),
                    writer := Some (ncreates s), reader := Some (ncreates s),
                    screen := Some (new_screen (terminal_width (config s))
                                               (terminal_height (config s)))\<rparr>
         in do {
           (out, s2) \<leftarrow> read_output e s1;
           Some (True, update_activity e (s2\<lparr>in_shell := True\<rparr>))
         }))"

definition COM_PROMPT :: string where
  \<comment> \<open>the pattern \<open>[\$#>]\s*$\<close>; the character 0x5C is the backslash\<close>
  "COM_PROMPT = ''['' @ [CHR 0x5C] @ ''$#>]'' @ [CHR 0x5C] @ ''s*$''"

definition COM_MODE_PROMPT :: string where
  "COM_MODE_PROMPT = ''COMMODE|COM>''"

definition switch_room :: "env \<Rightarrow> string \<Rightarrow> session \<Rightarrow> (bool \<times> session) option" where
  "switch_room e rm s =
     (if \<not> in_com s then Some (False, s)
      else (let (sent, s1) = send e (''j '' @ rm) True s
            in do {
              (out, s2) \<leftarrow> read_output e s1;
              Some (True, s2\<lparr>state := (state s2)\<lparr>last_room := rm\<rparr>\<rparr>)
            }))"

definition enter_com :: "env \<Rightarrow> string \<Rightarrow> session \<Rightarrow> ((exn + bool) \<times> session) option" where
  "enter_com e rm s =
     (let (ok1, s1) = (if \<not> connected s then connect e s else (True, s))
      in if \<not> ok1 then Some (Inr False, s1)
         else do {
           (ok2, s2) \<leftarrow> (if \<not> in_shell s1 then invoke_shell e s1 else Some (True, s1));
           if \<not> ok2 then Some (Inr False, s2)
           else do {
             (r, s3) \<leftarrow> send_and_expect e ''com'' COM_MODE_PROMPT 5 s2;
             (case r of
                Inl x \<Rightarrow> Some (Inl x, s3)
              | Inr result \<Rightarrow>
                  if success result then
                    (let s4 = s3\<lparr>in_com := True, state := (state s3)\<lparr>last_room := rm\<rparr>\<rparr>
                     in if rm \<noteq> ''lobby''
                        then map_option (\<lambda>(b, s5). (Inr b, s5)) (switch_room e rm s4)
                        else Some (Inr True, s4))
                  else Some (Inr False, s3))
           }
         })"

definition exit_com :: "env \<Rightarrow> session \<Rightarrow> (bool \<times> session) option" where
  "exit_com e s =
     (if \<not> in_com s then Some (True, s)
      else (let (sent, s1) = send e ''q'' True s
            in do {
              (out, s2) \<leftarrow> read_output e s1;
              Some (True, s2\<lparr>in_com := False\<rparr>)
            }))"

definition send_message :: "env \<Rightarrow> string \<Rightarrow> session \<Rightarrow> bool \<times> session" where
  "send_message e msg s = (if \<not> in_com s then (False, s) else send e msg True s)"

definition send_private_message :: "env \<Rightarrow> string \<Rightarrow> string \<Rightarrow> session \<Rightarrow> bool \<times> session" where
  "send_private_message e user msg s =
     (if \<not> in_com s then (False, s) else send e (''p '' @ user @ '' '' @ msg) True s)"

definition get_online_users :: "env \<Rightarrow> session \<Rightarrow> ((exn + command_result) \<times> session) option" where
  "get_online_users e s = send_and_expect e ''w'' COM_PROMPT 3 s"

definition list_rooms :: "env \<Rightarrow> session \<Rightarrow> ((exn + command_result) \<times> session) option" where
  "list_rooms e s = send_and_expect e ''l'' COM_PROMPT 3 s"

section \<open>The reconnect supervisor\<close>

fun reconnect_attempts :: "env \<Rightarrow> nat \<Rightarrow> int \<Rightarrow> session \<Rightarrow> (bool \<times> session) option" where
  \<comment> \<open>the loop \<open>for attempt in range(max_retries)\<close> with the attempts that are left and
      the current \<open>retry_delay\<close>; an exception of \<open>enter_com\<close> is caught and the attempt
      counts as failed\<close>
  "reconnect_attempts e 0 retry_delay s = Some (False, s)"
| "reconnect_attempts e (Suc n) retry_delay s =
     (let (c, s1) = connect e s
      in do {
        (won, s2) \<leftarrow> (if c then map_option (\<lambda>(r, s'). (r = Inr True, s'))
                                   (enter_com e (last_room (state s1)) s1)
                       else Some (False, s1));
        if won then Some (True, s2)
        else reconnect_attempts e n (min (retry_delay * 2) 60)
               (s2\<lparr>trace := trace s2 @ [Backoff retry_delay]\<rparr>)
      })"

definition attempt :: "env \<Rightarrow> session \<Rightarrow> (bool \<times> session) option" where
  \<comment> \<open>the \<open>try\<close> block of one pass of that loop: whether it returned \<open>True\<close>\<close>
  "attempt e s =
     (let (c, s1) = connect e s
      in if c then map_option (\<lambda>(r, s'). (r = Inr True, s'))
                     (enter_com e (last_room (state s1)) s1)
         else Some (False, s1))"

definition auto_reconnect :: "env \<Rightarrow> session \<Rightarrow> (bool \<times> session) option" where
  \<comment> \<open>\<open>max_retries = 5\<close>, \<open>retry_delay = 5\<close>\<close>
  "auto_reconnect e s = reconnect_attempts e 5 5 s"

definition handle_disconnect :: "env \<Rightarrow> session \<Rightarrow> session option" where
  "handle_disconnect e s =
     (let s1 = s\<lparr>connected := False, in_shell := False,
                 state := (state s)\<lparr>is_connected := False\<rparr>\<rparr>
      in if is_persistent (config s1) \<and> reconnect_callback s1
         then map_option snd (auto_reconnect e s1)
         else Some s1)"

definition backoffs :: "session \<Rightarrow> int list" where
  \<comment> \<open>the delays the supervisor has slept so far, in order\<close>
  "backoffs s = concat (map (\<lambda>ev. case ev of Backoff d \<Rightarrow> [d] | _ \<Rightarrow> []) (trace s))"

definition written :: "session \<Rightarrow> string list" where
  \<comment> \<open>the texts written to the remote so far, in order\<close>
  "written s = concat (map (\<lambda>ev. case ev of Wrote t \<Rightarrow> [t] | _ \<Rightarrow> []) (trace s))"

section \<open>The monitor\<close>




definition dispatched :: "session \<Rightarrow> message list" where
  \<comment> \<open>the messages handed to the message callback so far, in order\<close>
  "dispatched s = concat (map (\<lambda>ev. case ev of Dispatched m \<Rightarrow> [m] | _ \<Rightarrow> []) (trace s))"

section \<open>The callback-driven chat client\<close>

text \<open>
  \<open>COMClient\<close> of \<open>sdf/com.py\<close>. Its send callback and its two files are the outside:
  \<open>calls\<close> tells whether a call of the callback returns and \<open>files\<close> whether a write to a
  file does; either raises otherwise. Every public method catches all exceptions.
\<close>

datatype com_state = DISCONNECTED | CONNECTING | CONNECTED | IN_COM

record com_env =
  calls :: "nat \<Rightarrow> bool"
  files :: "nat \<Rightarrow> bool"

record com_client =
  default_room :: string
  send_callback :: bool
  cstate :: com_state
  current_room :: string
  sent :: "string list"
  ncalls :: nat
  nfiles :: nat

definition com_send :: "com_env \<Rightarrow> string \<Rightarrow> com_client \<Rightarrow> com_client + com_client" where
  \<comment> \<open>\<open>_send\<close>; \<open>Inl\<close> is the client when the callback raised\<close>
  "com_send ce msg c =
     (if send_callback c then
        (if calls ce (ncalls c) then Inr (c\<lparr>sent := sent c @ [msg], ncalls := ncalls c + 1\<rparr>)
         else Inl (c\<lparr>ncalls := ncalls c + 1\<rparr>))
      else Inr c)"

definition file_write :: "com_env \<Rightarrow> com_client \<Rightarrow> com_client + com_client" where
  \<comment> \<open>\<open>_save_state\<close> and \<open>_log_message\<close>: one write to a file\<close>
  "file_write ce c =
     (if files ce (nfiles c) then Inr (c\<lparr>nfiles := nfiles c + 1\<rparr>)
      else Inl (c\<lparr>nfiles := nfiles c + 1\<rparr>))"

definition or_false :: "com_client + com_client \<Rightarrow> (com_client \<Rightarrow> bool \<times> com_client)
    \<Rightarrow> bool \<times> com_client" where
  \<comment> \<open>a step inside \<open>try: ... except: return False\<close>\<close>
  "or_false r k = (case r of Inl c \<Rightarrow> (False, c) | Inr c \<Rightarrow> k c)"

definition com_enter_com :: "com_env \<Rightarrow> com_client \<Rightarrow> bool \<times> com_client" where
  "com_enter_com ce c =
     (if cstate c = IN_COM then (True, c)
      else if \<not> send_callback c then (False, c)
      else or_false (com_send ce ''com'' c) (\<lambda>c1.
             or_false (if current_room c1 \<noteq> default_room c1
                       then com_send ce (''g '' @ current_room c1) c1 else Inr c1) (\<lambda>c2.
               or_false (file_write ce (c2\<lparr>cstate := IN_COM\<rparr>)) (\<lambda>c3. (True, c3)))))"

definition com_send_message :: "com_env \<Rightarrow> string \<Rightarrow> com_client \<Rightarrow> bool \<times> com_client" where
  "com_send_message ce msg c =
     (let (ok, c1) = (if cstate c \<noteq> IN_COM then com_enter_com ce c else (True, c))
      in if \<not> ok then (False, c1)
         else or_false (com_send ce msg c1) (\<lambda>c2.
                or_false (file_write ce c2) (\<lambda>c3. (True, c3))))"

definition com_switch_room :: "com_env \<Rightarrow> string \<Rightarrow> com_client \<Rightarrow> bool \<times> com_client" where
  "com_switch_room ce rm c =
     (let (ok, c1) = (if cstate c \<noteq> IN_COM then com_enter_com ce c else (True, c))
      in if \<not> ok then (False, c1)
         else or_false (com_send ce (''g '' @ rm) c1) (\<lambda>c2.
                or_false (file_write ce (c2\<lparr>current_room := rm\<rparr>)) (\<lambda>c3. (True, c3))))"

definition com_send_private :: "com_env \<Rightarrow> string \<Rightarrow> string \<Rightarrow> com_client \<Rightarrow> bool \<times> com_client" where
  "com_send_private ce user msg c =
     (let (ok, c1) = (if cstate c \<noteq> IN_COM then com_enter_com ce c else (True, c))
      in if \<not> ok then (False, c1)
         else or_false (com_send ce (''s '' @ user @ '' '' @ msg) c1) (\<lambda>c2.
                or_false (file_write ce c2) (\<lambda>c3. (True, c3))))"

definition com_command :: "com_env \<Rightarrow> string \<Rightarrow> com_client \<Rightarrow> bool \<times> com_client" where
  \<comment> \<open>\<open>_com_command\<close>, behind \<open>who_online\<close> (\<open>w\<close>) and \<open>list_rooms\<close> (\<open>l\<close>)\<close>
  "com_command ce cmd c =
     (let (ok, c1) = (if cstate c \<noteq> IN_COM then com_enter_com ce c else (True, c))
      in if \<not> ok then (False, c1)
         else or_false (com_send ce cmd c1) (\<lambda>c2. (True, c2)))"


section \<open>Construction\<close>

definition new_connection :: "env \<Rightarrow> connection_config \<Rightarrow> string \<Rightarrow> session" where
  \<comment> \<open>\<open>AsyncSSHConnection.__init__\<close>; \<open>ConnectionState()\<close> reads the clock once\<close>
  "new_connection e cfg cid =
     \<lparr>config = cfg, connection_id = cid, conn = None, process = None, writer = None,
      reader = None, connected = False, in_shell = False, expect_buffer = [], screen = None,
      state = \<lparr>last_activity = clock e 0, reconnect_count = 0, last_room = ''lobby'',
               is_connected = False, disconnect_notified = False\<rparr>,
      keepalive_task = False, idle_check_task = False, disconnect_callback = False,
      reconnect_callback = False, in_com = False, message_callback = False,
      monitoring = False, ticks = 1, nreads = 0, nconnects = 0, ncreates = 0, nwrites = 0,
      trace = []\<rparr>"

definition new_com_connection :: "env \<Rightarrow> connection_config \<Rightarrow> session" where
  \<comment> \<open>\<open>COMChatConnection.__init__\<close>\<close>
  "new_com_connection e cfg =
     (new_connection e (cfg\<lparr>is_persistent := True\<rparr>) (''com:'' @ host cfg))
       \<lparr>reconnect_callback := True\<rparr>"

section \<open>Concrete environments and sessions\<close>




section \<open>What a drain reads\<close>

definition flows :: "read_event \<Rightarrow> bool" where
  \<comment> \<open>the read gives text, so the loop of \<open>_read_output\<close> goes round again\<close>
  "flows ev = (case ev of Chunk data \<Rightarrow> data \<noteq> [] | _ \<Rightarrow> False)"

definition chunk_text :: "env \<Rightarrow> nat \<Rightarrow> nat \<Rightarrow> string" where
  \<comment> \<open>the text that the reads numbered \<open>i\<close> to \<open>j - 1\<close> deliver\<close>
  "chunk_text e i j =
     concat (map (\<lambda>k. case reads e k of Chunk data \<Rightarrow> data | _ \<Rightarrow> []) [i..<j])"

definition read_frame :: "session \<Rightarrow> session" where
  \<comment> \<open>the session with everything that reading may change blanked out\<close>
  "read_frame s =
     s\<lparr>nreads := 0, ticks := 0, expect_buffer := [], screen := None,
       state := (state s)\<lparr>last_activity := 0, disconnect_notified := False\<rparr>\<rparr>"

definition drained :: "env \<Rightarrow> session \<Rightarrow> session \<Rightarrow> bool" where
  \<comment> \<open>\<open>s'\<close> comes from \<open>s\<close> by reading: only the read and clock counters, the expect buffer,
      the screen and the activity record differ, and the buffer and the screen have
      received exactly the text read in between\<close>
  "drained e s s' =
     (nreads s \<le> nreads s' \<and> ticks s \<le> ticks s' \<and> read_frame s' = read_frame s \<and>
      expect_buffer s' = expect_buffer s @ chunk_text e (nreads s) (nreads s') \<and>
      screen s' = map_option (\<lambda>scr. feed scr (chunk_text e (nreads s) (nreads s'))) (screen s))"

definition shell_frame :: "session \<Rightarrow> session" where
  \<comment> \<open>the session with everything blanked out that the shell and chat operations may
      change once the connection stands\<close>
  "shell_frame s =
     s\<lparr>nreads := 0, ticks := 0, expect_buffer := [], screen := None,
       state := (state s)\<lparr>last_activity := 0, disconnect_notified := False, last_room := []\<rparr>,
       ncreates := 0, process := None, writer := None, reader := None, in_shell := False,
       nwrites := 0, trace := [], in_com := False\<rparr>"

definition shell_step :: "session \<Rightarrow> session \<Rightarrow> bool" where
  \<comment> \<open>\<open>s'\<close> differs from \<open>s\<close> at most in those fields, and the supervisor has not slept\<close>
  "shell_step s s' = (shell_frame s' = shell_frame s \<and> backoffs s' = backoffs s)"

fun backoff_schedule :: "int \<Rightarrow> nat \<Rightarrow> int list" where
  \<comment> \<open>\<open>n\<close> delays that start at \<open>d\<close>, each the double of the one before, capped at 60\<close>
  "backoff_schedule d 0 = []"
| "backoff_schedule d (Suc n) = d # backoff_schedule (min (d * 2) 60) n"

definition pausing :: "env \<Rightarrow> bool" where
  \<comment> \<open>the remote falls silent again and again: after every read there is a later one
      that times out, fails or finds the end of the stream\<close>
  "pausing e = (\<forall>n. \<exists>k. \<not> flows (reads e (n + k)))"

definition clock_advances :: "env \<Rightarrow> bool" where
  \<comment> \<open>the clock never runs backwards and passes every bound\<close>
  "clock_advances e = (mono (clock e) \<and> (\<forall>x. \<exists>k. x \<le> clock e k))"

definition valid_pattern :: "env \<Rightarrow> string \<Rightarrow> bool" where
  \<comment> \<open>the pattern is a regular expression: \<open>re.search\<close> never raises on it\<close>
  "valid_pattern e pattern = (\<forall>b. re_search e pattern b \<noteq> None)"

definition contains :: "string \<Rightarrow> string \<Rightarrow> bool" where
  \<comment> \<open>the text \<open>needle\<close> occurs in \<open>hay\<close>\<close>
  "contains needle hay =
     list_ex (\<lambda>i. take (length needle) (drop i hay) = needle) [0..<length hay + 1]"

definition chat_env :: env where
  \<comment> \<open>a clock that advances 0.1 s per reading; a remote that is silent but for the prompt
      \<open>COM> \<close> at the read numbered 1; connects 1 and 2 fail and the others succeed;
      \<open>re.search\<close> knows the pattern \<open>COMMODE|COM>\<close>, matched without regard to case\<close>
  "chat_env =
     \<lparr>clock = (\<lambda>k. real k / 10),
      reads = (\<lambda>k. if k = 1 then Chunk ''COM> '' else ReadTimeout),
      connects = (\<lambda>k. if k = 1 \<or> k = 2 then ConnectFailed else Established),
      creates = (\<lambda>k. True), writes = (\<lambda>k. True),
      re_search = (\<lambda>p b. Some (p = COM_MODE_PROMPT \<and>
                               (contains ''COMMODE'' (upper b) \<or> contains ''COM>'' (upper b)))),
      set_pop = (\<lambda>S. [])\<rparr>"

definition com_config :: connection_config where
  "com_config = \<lparr>host = ''test'', port = 22, username = ''me'', terminal_width = 8,
                  terminal_height = 2, is_persistent = True, idle_timeout = 3600\<rparr>"

definition shell_session :: session where
  \<comment> \<open>a chat session that is connected and has its shell, before the read numbered 1\<close>
  "shell_session =
     (new_com_connection chat_env com_config)
       \<lparr>conn := Some 0, process := Some 0, writer := Some 0, reader := Some 0,
        connected := True, in_shell := True,
        screen := Some (feed (new_screen 8 2) ''$ ''),
        state := \<lparr>last_activity = 0, reconnect_count = 1, last_room = ''lobby'',
                  is_connected = True, disconnect_notified = False\<rparr>,
        keepalive_task := True, nreads := 1, nconnects := 1, ncreates := 1\<rparr>"

definition lost_session :: session where
  \<comment> \<open>a chat session that was in the room \<open>hackers\<close> when its connection was lost\<close>
  "lost_session =
     (new_com_connection chat_env com_config)
       \<lparr>conn := Some 0, writer := Some 0, reader := Some 0,
        screen := Some (new_screen 8 2),
        state := \<lparr>last_activity = 0, reconnect_count = 1, last_room = ''hackers'',
                  is_connected = False, disconnect_notified = False\<rparr>,
        keepalive_task := True, in_com := True, nconnects := 1, ncreates := 1\<rparr>"

definition flood_env :: env where
  \<comment> \<open>as \<open>chat_env\<close>, but the remote has text ready at every read\<close>
  "flood_env = chat_env\<lparr>reads := (\<lambda>k. Chunk ''x'')\<rparr>"

definition chat_session :: session where
  \<comment> \<open>the same session in chat mode\<close>
  "chat_session = shell_session\<lparr>in_com := True\<rparr>"

definition session_summary :: "session \<Rightarrow> bool \<times> bool \<times> string \<times> int \<times> int list \<times> string list" where
  \<comment> \<open>connected, in chat mode, the room, the reconnect counter, the delays slept and the
      texts written\<close>
  "session_summary s =
     (connected s, in_com s, last_room (state s), reconnect_count (state s), backoffs s,
      written s)"

definition shell_summary :: "session \<Rightarrow> bool \<times> nat option \<times> nat option \<times> nat option \<times> string" where
  \<comment> \<open>the shell flag, the process, the writer, the reader and the text on the screen\<close>
  "shell_summary s = (in_shell s, process s, writer s, reader s, get_screen_text (screen s))"

definition enter_commands :: "com_client \<Rightarrow> string list" where
  \<comment> \<open>what \<open>COMClient.enter_com\<close> sends: \<open>com\<close>, then \<open>g room\<close> unless the room is the default\<close>
  "enter_commands c =
     ''com'' # (if current_room c \<noteq> default_room c then [''g '' @ current_room c] else [])"

definition reliable :: "com_env \<Rightarrow> bool" where
  \<comment> \<open>the send callback and the files never raise\<close>
  "reliable ce = ((\<forall>k. calls ce k) \<and> (\<forall>k. files ce k))"

definition fresh_client :: com_client where
  \<comment> \<open>a client with a send callback that is connected but not in chat mode\<close>
  "fresh_client = \<lparr>default_room = ''lounge'', send_callback = True, cstate = CONNECTED,
                    current_room = ''hackers'', sent = [], ncalls = 0, nfiles = 0\<rparr>"

definition good_com_env :: com_env where
  "good_com_env = \<lparr>calls = (\<lambda>k. True), files = (\<lambda>k. True)\<rparr>"

definition refusing_env :: env where
  \<comment> \<open>as \<open>chat_env\<close>, but every connect fails\<close>
  "refusing_env = chat_env\<lparr>connects := (\<lambda>k. ConnectFailed)\<rparr>"





definition shown :: "nat \<Rightarrow> nat \<Rightarrow> string list \<Rightarrow> (nat \<Rightarrow> nat \<Rightarrow> string) \<Rightarrow> nat \<Rightarrow> nat \<Rightarrow> string" where
  \<comment> \<open>the grid \<open>buf\<close> with the lines \<open>ls\<close> written over it, the first from column \<open>cx\<close> of row
      \<open>cy\<close> and each further one from the start of the next row\<close>
  "shown cx cy ls buf y x =
     (let off = (if y = cy then cx else 0)
      in if cy \<le> y \<and> y - cy < length ls \<and> off \<le> x \<and> x - off < length (ls ! (y - cy))
         then [ls ! (y - cy) ! (x - off)]
         else buf y x)"


definition mute_env :: env where
  \<comment> \<open>as \<open>chat_env\<close>, but every connect succeeds, the clock advances a second per reading
      and the pattern of the chat prompt is never found\<close>
  "mute_env = chat_env\<lparr>clock := real, connects := (\<lambda>k. Established),
                         re_search := (\<lambda>p b. Some False)\<rparr>"

section \<open>Draining the reader\<close>

lemma chunk_text_same [simp]: "chunk_text e i i = []"
  by (simp add: chunk_text_def)

lemma chunk_text_append:
  "i \<le> j \<Longrightarrow> j \<le> k \<Longrightarrow> chunk_text e i j @ chunk_text e j k = chunk_text e i k"
proof -
  assume "i \<le> j" "j \<le> k"
  then have "[i..<k] = [i..<j] @ [j..<k]"
    by (metis le_Suc_ex upt_add_eq_append)
  then show ?thesis by (simp add: chunk_text_def)
qed

lemma chunk_text_step:
  "reads e i = Chunk d \<Longrightarrow> i < j \<Longrightarrow> chunk_text e i j = d @ chunk_text e (Suc i) j"
  by (simp add: chunk_text_def upt_conv_Cons)

lemma chunk_text_one_pause:
  "\<not> flows (reads e i) \<Longrightarrow> chunk_text e i (Suc i) = []"
  by (auto simp: chunk_text_def flows_def split: read_event.splits)

lemma feed_append: "feed (feed scr a) b = feed scr (a @ b)"
  by (simp add: feed_def)

lemma feed_nil [simp]: "feed scr [] = scr"
  by (simp add: feed_def)

lemma drained_refl [simp]: "drained e s s"
  by (simp add: drained_def option.map_ident)

lemma drained_trans:
  assumes "drained e s s1" and "drained e s1 s2"
  shows "drained e s s2"
proof -
  have ct: "chunk_text e (nreads s) (nreads s1) @ chunk_text e (nreads s1) (nreads s2)
            = chunk_text e (nreads s) (nreads s2)"
    using assms by (intro chunk_text_append) (simp_all add: drained_def)
  show ?thesis
    using assms unfolding drained_def
    by (simp add: ct[symmetric] option.map_comp comp_def feed_append)
qed

lemma drained_fields:
  assumes "drained e s s'"
  shows "config s' = config s" "connection_id s' = connection_id s" "conn s' = conn s"
    "process s' = process s" "writer s' = writer s" "reader s' = reader s"
    "connected s' = connected s" "in_shell s' = in_shell s" "in_com s' = in_com s"
    "keepalive_task s' = keepalive_task s" "idle_check_task s' = idle_check_task s"
    "disconnect_callback s' = disconnect_callback s"
    "reconnect_callback s' = reconnect_callback s" "message_callback s' = message_callback s"
    "monitoring s' = monitoring s" "nconnects s' = nconnects s" "ncreates s' = ncreates s"
    "nwrites s' = nwrites s" "trace s' = trace s"
    "last_room (state s') = last_room (state s)"
    "reconnect_count (state s') = reconnect_count (state s)"
    "is_connected (state s') = is_connected (state s)"
proof -
  from assms have f: "read_frame s' = read_frame s" by (simp add: drained_def)
  show "config s' = config s" using arg_cong[OF f, of config] by (simp add: read_frame_def)
  show "connection_id s' = connection_id s" using arg_cong[OF f, of connection_id] by (simp add: read_frame_def)
  show "conn s' = conn s" using arg_cong[OF f, of conn] by (simp add: read_frame_def)
  show "process s' = process s" using arg_cong[OF f, of process] by (simp add: read_frame_def)
  show "writer s' = writer s" using arg_cong[OF f, of writer] by (simp add: read_frame_def)
  show "reader s' = reader s" using arg_cong[OF f, of reader] by (simp add: read_frame_def)
  show "connected s' = connected s" using arg_cong[OF f, of connected] by (simp add: read_frame_def)
  show "in_shell s' = in_shell s" using arg_cong[OF f, of in_shell] by (simp add: read_frame_def)
  show "in_com s' = in_com s" using arg_cong[OF f, of in_com] by (simp add: read_frame_def)
  show "keepalive_task s' = keepalive_task s" using arg_cong[OF f, of keepalive_task] by (simp add: read_frame_def)
  show "idle_check_task s' = idle_check_task s" using arg_cong[OF f, of idle_check_task] by (simp add: read_frame_def)
  show "disconnect_callback s' = disconnect_callback s" using arg_cong[OF f, of disconnect_callback] by (simp add: read_frame_def)
  show "reconnect_callback s' = reconnect_callback s" using arg_cong[OF f, of reconnect_callback] by (simp add: read_frame_def)
  show "message_callback s' = message_callback s" using arg_cong[OF f, of message_callback] by (simp add: read_frame_def)
  show "monitoring s' = monitoring s" using arg_cong[OF f, of monitoring] by (simp add: read_frame_def)
  show "nconnects s' = nconnects s" using arg_cong[OF f, of nconnects] by (simp add: read_frame_def)
  show "ncreates s' = ncreates s" using arg_cong[OF f, of ncreates] by (simp add: read_frame_def)
  show "nwrites s' = nwrites s" using arg_cong[OF f, of nwrites] by (simp add: read_frame_def)
  show "trace s' = trace s" using arg_cong[OF f, of trace] by (simp add: read_frame_def)
  have st: "(state s')\<lparr>last_activity := 0, disconnect_notified := False\<rparr>
          = (state s)\<lparr>last_activity := 0, disconnect_notified := False\<rparr>"
    using arg_cong[OF f, of state] by (simp add: read_frame_def)
  show "last_room (state s') = last_room (state s)" using arg_cong[OF st, of last_room] by simp
  show "reconnect_count (state s') = reconnect_count (state s)" using arg_cong[OF st, of reconnect_count] by simp
  show "is_connected (state s') = is_connected (state s)" using arg_cong[OF st, of is_connected] by simp
qed

lemmas read_loop_induct = read_loop.raw_induct[rotated 1, consumes 1, case_names step]

lemma read_loop_drained:
  assumes "read_loop e out s = Some y"
  shows "drained e s (snd y) \<and> nreads s < nreads (snd y) \<and> ticks (snd y) = ticks s \<and>
     state (snd y) = state s \<and>
     fst y = out @ chunk_text e (nreads s) (nreads (snd y))"
  using assms
proof (induct e out s y rule: read_loop_induct)
  case (step rl e out s y)
  show ?case
  proof (cases "flows (reads e (nreads s))")
    case False
    then have y: "y = (out, s\<lparr>nreads := nreads s + 1\<rparr>)"
      using step(2) by (auto simp: flows_def split: read_event.splits if_splits)
    show ?thesis using False
      by (simp add: y drained_def read_frame_def chunk_text_one_pause option.map_ident)
  next
    case True
    then obtain d where d: "reads e (nreads s) = Chunk d" "d \<noteq> []"
      by (auto simp: flows_def split: read_event.splits)
    let ?s1 = "s\<lparr>nreads := nreads s + 1, expect_buffer := expect_buffer s @ d,
                 screen := map_option (\<lambda>scr. feed scr d) (screen s)\<rparr>"
    from step(2) d have "rl e (out @ d) ?s1 = Some y" by simp
    from step(1)[OF this] have ih: "drained e ?s1 (snd y)" "nreads ?s1 < nreads (snd y)"
      "ticks (snd y) = ticks ?s1" "state (snd y) = state ?s1"
      "fst y = (out @ d) @ chunk_text e (nreads ?s1) (nreads (snd y))" by simp_all
    have lt: "nreads s < nreads (snd y)" using ih(2) by simp
    have ct: "chunk_text e (nreads s) (nreads (snd y)) = d @ chunk_text e (Suc (nreads s)) (nreads (snd y))"
      using d(1) lt by (rule chunk_text_step)
    have "drained e s (snd y)"
      using ih(1) lt unfolding drained_def
      by (simp add: ct read_frame_def option.map_comp comp_def feed_append)
    then show ?thesis using ih lt by (simp add: ct)
  qed
qed

lemma read_loop_returns:
  "\<not> flows (reads e (nreads s + k)) \<Longrightarrow> read_loop e out s \<noteq> None"
proof (induction k arbitrary: s out)
  case 0
  then show ?case
    by (subst read_loop.simps) (auto simp: flows_def split: read_event.splits)
next
  case (Suc k)
  show ?case
  proof (cases "reads e (nreads s)")
    case (Chunk d)
    show ?thesis
    proof (cases "d = []")
      case True
      then show ?thesis using Chunk by (subst read_loop.simps) simp
    next
      case False
      let ?s1 = "s\<lparr>nreads := nreads s + 1, expect_buffer := expect_buffer s @ d,
                   screen := map_option (\<lambda>scr. feed scr d) (screen s)\<rparr>"
      have "\<not> flows (reads e (nreads ?s1 + k))" using Suc.prems by simp
      from Suc.IH[OF this, of "out @ d"] show ?thesis
        using Chunk False by (subst read_loop.simps) simp
    qed
  qed (subst read_loop.simps, simp)+
qed

lemma read_loop_hangs:
  "(\<forall>k\<ge>nreads s. flows (reads e k)) \<Longrightarrow> read_loop e out s = None"
proof (rule ccontr)
  assume fl: "\<forall>k\<ge>nreads s. flows (reads e k)" and "read_loop e out s \<noteq> None"
  then obtain y where y: "read_loop e out s = Some y" by auto
  from y have "\<exists>k\<ge>nreads s. \<not> flows (reads e k)"
  proof (induct e out s y rule: read_loop_induct)
    case (step rl e out s y)
    show ?case
    proof (cases "flows (reads e (nreads s))")
      case False
      then show ?thesis by blast
    next
      case True
      then obtain d where d: "reads e (nreads s) = Chunk d" "d \<noteq> []"
        by (auto simp: flows_def split: read_event.splits)
      let ?s1 = "s\<lparr>nreads := nreads s + 1, expect_buffer := expect_buffer s @ d,
                 screen := map_option (\<lambda>scr. feed scr d) (screen s)\<rparr>"
      from step(2) d have "rl e (out @ d) ?s1 = Some y" by simp
      from step(1)[OF this] obtain k where "k \<ge> nreads s + 1" "\<not> flows (reads e k)" by auto
      then show ?thesis by (intro exI[of _ k]) simp
    qed
  qed
  with fl show False by blast
qed


lemma update_activity_drained [simp]: "drained e s (update_activity e s)"
  by (simp add: update_activity_def time_time_def drained_def read_frame_def option.map_ident)

lemma tick_drained: "drained e s (s\<lparr>ticks := ticks s + 1\<rparr>)"
  by (simp add: drained_def read_frame_def option.map_ident)

lemma tick_drained_Suc [simp]: "drained e s (s\<lparr>ticks := Suc (ticks s)\<rparr>)"
  using tick_drained[of e s] by simp

lemma read_output_drained:
  assumes "read_output e s = Some (out, s')"
  shows "drained e s s' \<and> out = chunk_text e (nreads s) (nreads s')"
proof (cases "reader s = None")
  case True
  with assms show ?thesis by (simp add: read_output_def)
next
  case False
  with assms obtain y where y: "read_loop e [] s = Some y"
    and r: "out = fst y" "s' = (if fst y \<noteq> [] then update_activity e (snd y) else snd y)"
    by (auto simp: read_output_def split: Option.bind_splits prod.splits)
  from read_loop_drained[OF y] have d: "drained e s (snd y)"
    "fst y = chunk_text e (nreads s) (nreads (snd y))" by simp_all
  have "drained e (snd y) s'" by (simp add: r)
  with d(1) have "drained e s s'" by (rule drained_trans)
  moreover have "nreads s' = nreads (snd y)"
    by (simp add: r update_activity_def time_time_def)
  ultimately show ?thesis using d(2) r(1) by simp
qed

lemma read_output_returns:
  "reader s = None \<or> \<not> flows (reads e (nreads s + k)) \<Longrightarrow> read_output e s \<noteq> None"
  using read_loop_returns[of e s k "[]"]
  by (auto simp: read_output_def split: Option.bind_splits)

lemma read_output_hangs:
  "reader s \<noteq> None \<Longrightarrow> \<forall>k\<ge>nreads s. flows (reads e k) \<Longrightarrow> read_output e s = None"
  using read_loop_hangs[of s e "[]"] by (simp add: read_output_def)

lemmas expect_loop_induct = expect_loop.raw_induct[rotated 1, consumes 1, case_names step]

lemma expect_loop_drained:
  assumes "expect_loop e pattern timeout start_time s = Some y"
  shows "drained e s (snd y) \<and> ticks s < ticks (snd y) \<and>
         (case fst y of
            Inl x \<Rightarrow> re_search e pattern (expect_buffer (snd y)) = None
          | Inr found \<Rightarrow>
              if found then re_search e pattern (expect_buffer (snd y)) = Some True
              else timeout \<le> clock e (ticks (snd y) - 1) - start_time \<and>
                   (expect_buffer (snd y) = expect_buffer s \<or>
                    re_search e pattern (expect_buffer (snd y)) = Some False))"
  using assms
proof (induct e pattern timeout start_time s y rule: expect_loop_induct)
  case (step el e pattern timeout start_time s y)
  show ?case
  proof (cases "clock e (ticks s) - start_time < timeout")
    case False
    with step(2) have y: "y = (Inr False, s\<lparr>ticks := ticks s + 1\<rparr>)" by simp
    show ?thesis using False by (simp add: y)
  next
    case True
    let ?s0 = "s\<lparr>ticks := ticks s + 1\<rparr>"
    from step(2) True obtain out s1 where
      ro: "read_output e ?s0 = Some (out, s1)" and
      rest: "(case re_search e pattern (expect_buffer s1) of
                None \<Rightarrow> Some (Inl ReError, s1)
              | Some found \<Rightarrow> if found then Some (Inr True, s1)
                  else el e pattern timeout start_time s1) = Some y"
      by (auto split: Option.bind_splits)
    from read_output_drained[OF ro] have d1: "drained e ?s0 s1" by simp
    have d0: "drained e s s1" using tick_drained d1 by (rule drained_trans)
    have t1: "ticks s < ticks s1" using d1 by (simp add: drained_def)
    show ?thesis
    proof (cases "re_search e pattern (expect_buffer s1)")
      case None
      with rest have "y = (Inl ReError, s1)" by simp
      then show ?thesis using d0 t1 None by simp
    next
      case (Some found)
      show ?thesis
      proof (cases found)
        case True
        with rest Some have "y = (Inr True, s1)" by simp
        then show ?thesis using d0 t1 Some True by simp
      next
        case False
        with rest Some have "el e pattern timeout start_time s1 = Some y" by simp
        from step(1)[OF this] have ih: "drained e s1 (snd y)" "ticks s1 < ticks (snd y)"
          "(case fst y of
            Inl x \<Rightarrow> re_search e pattern (expect_buffer (snd y)) = None
          | Inr found \<Rightarrow>
              if found then re_search e pattern (expect_buffer (snd y)) = Some True
              else timeout \<le> clock e (ticks (snd y) - 1) - start_time \<and>
                   (expect_buffer (snd y) = expect_buffer s1 \<or>
                    re_search e pattern (expect_buffer (snd y)) = Some False))"
          by simp_all
        have "drained e s (snd y)" using d0 ih(1) by (rule drained_trans)
        moreover have "ticks s < ticks (snd y)" using t1 ih(2) by simp
        ultimately show ?thesis using ih(3) Some False
          by (auto split: sum.splits if_splits)
      qed
    qed
  qed
qed

lemma expect_loop_returns:
  assumes "pausing e" and "clock_advances e"
  shows "expect_loop e pattern timeout start_time s \<noteq> None"
proof -
  from assms(2) obtain K where K: "start_time + timeout \<le> clock e K"
    unfolding clock_advances_def by blast
  have late: "\<And>k. K \<le> k \<Longrightarrow> \<not> clock e k - start_time < timeout"
  proof -
    fix k assume "K \<le> k"
    with assms(2) have "clock e K \<le> clock e k" unfolding clock_advances_def mono_def by blast
    with K show "\<not> clock e k - start_time < timeout" by simp
  qed
  show ?thesis
  proof (induction "K - ticks s" arbitrary: s rule: less_induct)
    case less
    show ?case
    proof (cases "clock e (ticks s) - start_time < timeout")
      case False
      then show ?thesis by (subst expect_loop.simps) simp
    next
      case True
      with late[of "ticks s"] have lt: "ticks s < K" by (cases "K \<le> ticks s") auto
      let ?s0 = "s\<lparr>ticks := ticks s + 1\<rparr>"
      from assms(1) obtain k where "\<not> flows (reads e (nreads ?s0 + k))"
        unfolding pausing_def by blast
      with read_output_returns[of ?s0 e k] have "read_output e ?s0 \<noteq> None" by blast
      then obtain out s1 where ro: "read_output e ?s0 = Some (out, s1)" by auto
      from read_output_drained[OF ro] have "ticks ?s0 \<le> ticks s1" by (simp add: drained_def)
      then have "K - ticks s1 < K - ticks s" using lt by simp
      from less[OF this] have "expect_loop e pattern timeout start_time s1 \<noteq> None" .
      then show ?thesis using True ro
        by (subst expect_loop.simps) (auto split: option.splits)
    qed
  qed
qed

lemma expect_loop_hangs:
  assumes "reader s \<noteq> None" and "\<forall>k\<ge>nreads s. flows (reads e k)"
    and "clock e (ticks s) - start_time < timeout"
  shows "expect_loop e pattern timeout start_time s = None"
proof -
  have "reader (s\<lparr>ticks := ticks s + 1\<rparr>) \<noteq> None" using assms(1) by simp
  moreover have "\<forall>k\<ge>nreads (s\<lparr>ticks := ticks s + 1\<rparr>). flows (reads e k)"
    using assms(2) by simp
  ultimately have "read_output e (s\<lparr>ticks := ticks s + 1\<rparr>) = None"
    by (rule read_output_hangs)
  then show ?thesis using assms(3) by (subst expect_loop.simps) simp
qed

section \<open>Send and expect\<close>

lemma written_update_activity [simp]: "written (update_activity e s) = written s"
  by (simp add: update_activity_def time_time_def written_def)

lemma drained_written: "drained e s s' \<Longrightarrow> written s' = written s"
  by (simp add: written_def drained_fields)

lemma send_cases:
  "send e data nl s =
     (if writer s \<noteq> None \<and> writes e (nwrites s)
      then (True, update_activity e
                    (s\<lparr>nwrites := nwrites s + 1,
                       trace := trace s @ [Wrote (if nl then data @ [newline] else data)]\<rparr>))
      else (False, if writer s = None then s else s\<lparr>nwrites := nwrites s + 1\<rparr>))"
  by (simp add: send_def)

lemma send_fields:
  assumes "send e data nl s = (b, s')"
  shows "nreads s' = nreads s" "expect_buffer s' = expect_buffer s" "reader s' = reader s"
    "writer s' = writer s" "in_com s' = in_com s" "connected s' = connected s"
    "ticks s \<le> ticks s'" "screen s' = screen s"
    "written s' = (if b then written s @ [if nl then data @ [newline] else data] else written s)"
    "b = (writer s \<noteq> None \<and> writes e (nwrites s))"
  using assms
  by (auto simp: send_cases update_activity_def time_time_def written_def split: if_splits)

lemma expect_drained:
  assumes "expect e pattern timeout s = Some (r, s')"
  shows "drained e s s'"
proof -
  from assms have "expect_loop e pattern timeout (clock e (ticks s)) (s\<lparr>ticks := ticks s + 1\<rparr>)
      = Some (r, s')"
    by (simp add: expect_def time_time_def)
  from expect_loop_drained[OF this] have "drained e (s\<lparr>ticks := ticks s + 1\<rparr>) s'" by simp
  with tick_drained show ?thesis by (rule drained_trans)
qed

lemma expect_outcome:
  assumes "expect e pattern timeout s = Some (r, s')"
  shows "case r of
           Inl x \<Rightarrow> re_search e pattern (expect_buffer s') = None
         | Inr found \<Rightarrow>
             if found then re_search e pattern (expect_buffer s') = Some True
             else timeout \<le> clock e (ticks s' - 1) - clock e (ticks s)"
proof -
  from assms have "expect_loop e pattern timeout (clock e (ticks s)) (s\<lparr>ticks := ticks s + 1\<rparr>)
      = Some (r, s')"
    by (simp add: expect_def time_time_def)
  from expect_loop_drained[OF this] show ?thesis
    by (auto split: sum.splits if_splits)
qed

lemma expect_returns:
  "pausing e \<Longrightarrow> clock_advances e \<Longrightarrow> expect e pattern timeout s \<noteq> None"
  by (simp add: expect_def time_time_def expect_loop_returns)

lemma expect_hangs:
  assumes "reader s \<noteq> None" and "\<forall>k\<ge>nreads s. flows (reads e k)"
    and "clock e (ticks s + 1) - clock e (ticks s) < timeout"
  shows "expect e pattern timeout s = None"
  using assms expect_loop_hangs[of "s\<lparr>ticks := ticks s + 1\<rparr>" e "clock e (ticks s)" timeout pattern]
  by (simp add: expect_def time_time_def)

lemma send_and_expect_unfold:
  "send_and_expect e command pattern timeout s =
     (let s1 = s\<lparr>ticks := ticks s + 1, expect_buffer := []\<rparr>
      in if writer s = None \<or> \<not> writes e (nwrites s) then
           Some (Inr \<lparr>success = False, output_text = [], error = ''Failed to send command'',
                      exit_code = 0,
                      duration = clock e (ticks (snd (send e command True s1))) - clock e (ticks s)\<rparr>,
                 (snd (send e command True s1))
                   \<lparr>ticks := ticks (snd (send e command True s1)) + 1\<rparr>)
         else
           (case expect e pattern timeout (snd (send e command True s1)) of
              None \<Rightarrow> None
            | Some (Inl x, s3) \<Rightarrow> Some (Inl x, s3)
            | Some (Inr found, s3) \<Rightarrow>
                Some (Inr \<lparr>success = found, output_text = expect_buffer s3,
                           error = (if found then [] else ''Pattern not found: '' @ pattern),
                           exit_code = 0,
                           duration = clock e (ticks s3) - clock e (ticks s)\<rparr>,
                      s3\<lparr>ticks := ticks s3 + 1\<rparr>)))"
  by (auto simp: send_and_expect_def time_time_def send_cases Let_def
           split: option.splits sum.splits prod.splits Option.bind_splits)



lemma chat_env_pausing: "pausing chat_env"
  unfolding pausing_def
proof
  fix n
  show "\<exists>k. \<not> flows (reads chat_env (n + k))"
    by (rule exI[of _ "if n = 1 then 1 else 0"]) (simp add: chat_env_def flows_def)
qed

lemma chat_env_clock: "clock_advances chat_env"
  unfolding clock_advances_def
proof
  show "mono (clock chat_env)"
    by (simp add: chat_env_def mono_def divide_right_mono)
  show "\<forall>x. \<exists>k. x \<le> clock chat_env k"
  proof
    fix x :: real
    obtain k :: nat where "x * 10 \<le> real k" using real_arch_simple by blast
    then have "x \<le> clock chat_env k" by (simp add: chat_env_def field_simps)
    then show "\<exists>k. x \<le> clock chat_env k" ..
  qed
qed

lemma chat_env_valid: "valid_pattern chat_env p"
  by (simp add: valid_pattern_def chat_env_def)

text \<open>
  Claim C1. For a remote that falls silent again and again, a clock that advances and a
  pattern that is a regular expression, \<open>send_and_expect\<close> returns a \<open>CommandResult\<close>.
  The expect buffer afterwards holds exactly the text read during the call, whatever it
  held before: it is cleared first. When the send fails (no writer, or the write raises)
  nothing is written or read and the result has \<open>success = False\<close>, the error
  \<open>Failed to send command\<close> and an empty output. Otherwise the command and a newline
  have been written, \<open>success\<close> is the outcome of \<open>expect\<close> on the session after the
  send, \<open>output\<close> is the text read during the call, and a success means that the pattern
  matches that output.
\<close>

theorem send_and_expect_result:
  assumes "pausing e" and "clock_advances e" and "valid_pattern e pattern"
  shows "\<exists>r s'. send_and_expect e command pattern timeout s = Some (Inr r, s') \<and>
           expect_buffer s' = chunk_text e (nreads s) (nreads s') \<and>
           (if writer s = None \<or> \<not> writes e (nwrites s)
            then \<not> success r \<and> error r = ''Failed to send command'' \<and> output_text r = [] \<and>
                 written s' = written s \<and> nreads s' = nreads s
            else written s' = written s @ [command @ [newline]] \<and>
                 output_text r = chunk_text e (nreads s) (nreads s') \<and>
                 (\<exists>s3. expect e pattern timeout
                         (snd (send e command True (s\<lparr>ticks := ticks s + 1, expect_buffer := []\<rparr>)))
                       = Some (Inr (success r), s3)) \<and>
                 (success r \<longrightarrow> re_search e pattern (output_text r) = Some True) \<and>
                 error r = (if success r then [] else ''Pattern not found: '' @ pattern))"
proof -
  let ?s1 = "s\<lparr>ticks := ticks s + 1, expect_buffer := []\<rparr>"
  let ?s2 = "snd (send e command True ?s1)"
  obtain b where snd: "send e command True ?s1 = (b, ?s2)" by (cases "send e command True ?s1") simp
  note sf = send_fields[OF snd]
  show ?thesis
  proof (cases "writer s = None \<or> \<not> writes e (nwrites s)")
    case True
    then have b: "\<not> b" using sf(10) by auto
    have "written ?s2 = written s" using sf(9) b by (simp add: written_def)
    then show ?thesis using True sf(1,2)
      by (simp add: send_and_expect_unfold Let_def written_def)
  next
    case False
    then have b: "b" using sf(10) by auto
    from expect_returns[OF assms(1,2)] obtain r0 s3 where
      ex: "expect e pattern timeout ?s2 = Some (r0, s3)" by fastforce
    have "\<exists>found. r0 = Inr found"
    proof (cases r0)
      case (Inl a)
      with expect_outcome[OF ex] have "re_search e pattern (expect_buffer s3) = None" by simp
      with assms(3) show ?thesis unfolding valid_pattern_def by blast
    next
      case (Inr found)
      then show ?thesis by blast
    qed
    then obtain found where r0: "r0 = Inr found" ..
    from expect_outcome[OF ex] r0
    have tr: "found \<longrightarrow> re_search e pattern (expect_buffer s3) = Some True" by simp
    from expect_drained[OF ex] have d: "drained e ?s2 s3" .
    then have eb: "expect_buffer s3 = chunk_text e (nreads s) (nreads s3)"
      using sf(1,2) by (simp add: drained_def)
    have w: "written s3 = written s @ [command @ [newline]]"
      using drained_written[OF d] sf(9) b by (simp add: written_def)
    let ?r = "\<lparr>success = found, output_text = expect_buffer s3,
               error = (if found then [] else ''Pattern not found: '' @ pattern),
               exit_code = 0, duration = clock e (ticks s3) - clock e (ticks s)\<rparr>"
    have "send_and_expect e command pattern timeout s = Some (Inr ?r, s3\<lparr>ticks := ticks s3 + 1\<rparr>)"
      using False ex r0 by (simp add: send_and_expect_unfold Let_def)
    moreover have "written (s3\<lparr>ticks := ticks s3 + 1\<rparr>) = written s3" by (simp add: written_def)
    ultimately show ?thesis using False eb w tr ex r0
      by (intro exI[of _ ?r] exI[of _ "s3\<lparr>ticks := ticks s3 + 1\<rparr>"]) simp
  qed
qed


section \<open>The idle-timeout loop\<close>

lemma notifications_ticks [simp]: "notifications (s\<lparr>ticks := t\<rparr>) = notifications s"
  by (simp add: notifications_def)






lemma expect_returns_boolean:
  assumes "pausing e" and "clock_advances e" and "valid_pattern e pattern"
  shows "\<exists>found s'. expect e pattern timeout s = Some (Inr found, s') \<and> drained e s s' \<and>
           (if found then re_search e pattern (expect_buffer s') = Some True
            else timeout \<le> clock e (ticks s' - 1) - clock e (ticks s))"
proof -
  from expect_returns[OF assms(1,2)] obtain r s' where
    ex: "expect e pattern timeout s = Some (r, s')" by fastforce
  have "\<exists>found. r = Inr found"
  proof (cases r)
    case (Inl a)
    with expect_outcome[OF ex] have "re_search e pattern (expect_buffer s') = None" by simp
    with assms(3) show ?thesis unfolding valid_pattern_def by blast
  next
    case (Inr found)
    then show ?thesis by blast
  qed
  then obtain found where r: "r = Inr found" ..
  from expect_outcome[OF ex] r expect_drained[OF ex] ex show ?thesis by auto
qed

text \<open>
  Claim C2. While the remote has text ready at every read, the drain inside \<open>expect\<close>
  never ends, so neither \<open>expect\<close> nor \<open>send_and_expect\<close> returns, whatever the pattern
  and however small the timeout that the first test of the loop lets pass.
\<close>

theorem expect_never_returns_under_flood:
  assumes "reader s \<noteq> None" and "\<forall>k\<ge>nreads s. flows (reads e k)"
  shows "(clock e (ticks s + 1) - clock e (ticks s) < timeout \<longrightarrow>
            expect e pattern timeout s = None) \<and>
         (writer s \<noteq> None \<and> writes e (nwrites s) \<and>
          clock e (ticks s + 3) - clock e (ticks s + 2) < timeout \<longrightarrow>
            send_and_expect e command pattern timeout s = None)"
proof (intro conjI impI)
  assume "clock e (ticks s + 1) - clock e (ticks s) < timeout"
  with assms show "expect e pattern timeout s = None" by (rule expect_hangs)
next
  assume a: "writer s \<noteq> None \<and> writes e (nwrites s) \<and>
          clock e (ticks s + 3) - clock e (ticks s + 2) < timeout"
  let ?s1 = "s\<lparr>ticks := ticks s + 1, expect_buffer := []\<rparr>"
  let ?s2 = "snd (send e command True ?s1)"
  have "reader ?s2 \<noteq> None" "nreads ?s2 = nreads s" "ticks ?s2 = ticks s + 2"
    using assms(1) a by (simp_all add: send_cases update_activity_def time_time_def)
  with assms(2) a have "expect e pattern timeout ?s2 = None"
    by (intro expect_hangs) (simp_all add: numeral_3_eq_3)
  then show "send_and_expect e command pattern timeout s = None"
    using a by (simp add: send_and_expect_unfold Let_def)
qed

section \<open>Shell and chat operations\<close>

lemma shell_step_refl [simp]: "shell_step s s"
  by (simp add: shell_step_def)

lemma shell_step_trans: "shell_step s s1 \<Longrightarrow> shell_step s1 s2 \<Longrightarrow> shell_step s s2"
  by (simp add: shell_step_def)

lemma shell_step_fields:
  assumes "shell_step s s'"
  shows "config s' = config s" "connected s' = connected s" "nconnects s' = nconnects s"
    "conn s' = conn s" "reconnect_callback s' = reconnect_callback s"
    "reconnect_count (state s') = reconnect_count (state s)"
    "is_connected (state s') = is_connected (state s)"
    "backoffs s' = backoffs s"
proof -
  from assms have f: "shell_frame s' = shell_frame s" by (simp add: shell_step_def)
  show "config s' = config s" using arg_cong[OF f, of config] by (simp add: shell_frame_def)
  show "connected s' = connected s" using arg_cong[OF f, of connected] by (simp add: shell_frame_def)
  show "nconnects s' = nconnects s" using arg_cong[OF f, of nconnects] by (simp add: shell_frame_def)
  show "conn s' = conn s" using arg_cong[OF f, of conn] by (simp add: shell_frame_def)
  show "reconnect_callback s' = reconnect_callback s"
    using arg_cong[OF f, of reconnect_callback] by (simp add: shell_frame_def)
  have st: "(state s')\<lparr>last_activity := 0, disconnect_notified := False, last_room := []\<rparr>
          = (state s)\<lparr>last_activity := 0, disconnect_notified := False, last_room := []\<rparr>"
    using arg_cong[OF f, of state] by (simp add: shell_frame_def)
  show "reconnect_count (state s') = reconnect_count (state s)"
    using arg_cong[OF st, of reconnect_count] by simp
  show "is_connected (state s') = is_connected (state s)"
    using arg_cong[OF st, of is_connected] by simp
  show "backoffs s' = backoffs s" using assms by (simp add: shell_step_def)
qed

lemma drained_shell_step: "drained e s s' \<Longrightarrow> shell_step s s'"
proof -
  assume d: "drained e s s'"
  then have "read_frame s' = read_frame s" by (simp add: drained_def)
  then have "shell_frame (read_frame s') = shell_frame (read_frame s)" by simp
  then have "shell_frame s' = shell_frame s" by (simp add: shell_frame_def read_frame_def)
  moreover have "backoffs s' = backoffs s" using drained_fields(19)[OF d] by (simp add: backoffs_def)
  ultimately show ?thesis by (simp add: shell_step_def)
qed

lemma update_activity_shell_step [simp]: "shell_step s (update_activity e s)"
  by (rule drained_shell_step[of e]) simp

lemma send_shell_step: "shell_step s (snd (send e data nl s))"
  by (simp add: send_cases shell_step_def shell_frame_def backoffs_def update_activity_def
      time_time_def)

lemma read_output_shell_step: "read_output e s = Some (out, s') \<Longrightarrow> shell_step s s'"
  using read_output_drained drained_shell_step by blast

lemma expect_shell_step: "expect e pattern timeout s = Some (r, s') \<Longrightarrow> shell_step s s'"
  using expect_drained drained_shell_step by blast

lemma send_and_expect_shell_step:
  assumes "send_and_expect e command pattern timeout s = Some (r, s')"
  shows "shell_step s s' \<and> in_com s' = in_com s \<and> last_room (state s') = last_room (state s)"
proof -
  let ?s1 = "s\<lparr>ticks := ticks s + 1, expect_buffer := []\<rparr>"
  let ?s2 = "snd (send e command True ?s1)"
  have a: "shell_step s ?s1" by (simp add: shell_step_def shell_frame_def backoffs_def)
  have b: "shell_step ?s1 ?s2" by (rule send_shell_step)
  have ab: "shell_step s ?s2" using a b by (rule shell_step_trans)
  have f2: "in_com ?s2 = in_com s" "last_room (state ?s2) = last_room (state s)"
    by (simp_all add: send_cases update_activity_def time_time_def)
  show ?thesis
  proof (cases "writer s = None \<or> \<not> writes e (nwrites s)")
    case True
    with assms have s': "s' = ?s2\<lparr>ticks := ticks ?s2 + 1\<rparr>"
      by (simp add: send_and_expect_unfold Let_def)
    have "shell_step ?s2 s'" by (simp add: s' shell_step_def shell_frame_def backoffs_def)
    with ab have "shell_step s s'" by (rule shell_step_trans)
    moreover have "in_com s' = in_com ?s2" "last_room (state s') = last_room (state ?s2)"
      by (simp_all add: s')
    ultimately show ?thesis using f2 by simp
  next
    case False
    with assms obtain r0 s3 where ex: "expect e pattern timeout ?s2 = Some (r0, s3)"
      and s': "s' = s3 \<or> s' = s3\<lparr>ticks := ticks s3 + 1\<rparr>"
      by (auto simp: send_and_expect_unfold Let_def split: option.splits sum.splits)
    from expect_drained[OF ex] have d: "drained e ?s2 s3" .
    have "shell_step s3 s'" using s' by (auto simp: shell_step_def shell_frame_def backoffs_def)
    with drained_shell_step[OF d] have "shell_step ?s2 s'" by (rule shell_step_trans)
    with ab have "shell_step s s'" by (rule shell_step_trans)
    moreover have "in_com s' = in_com s3" "last_room (state s') = last_room (state s3)"
      using s' by auto
    ultimately show ?thesis using f2 drained_fields(9,20)[OF d] by simp
  qed
qed

lemma send_and_expect_returns:
  assumes "pausing e" and "clock_advances e"
  shows "send_and_expect e command pattern timeout s \<noteq> None"
proof -
  let ?s2 = "snd (send e command True (s\<lparr>ticks := ticks s + 1, expect_buffer := []\<rparr>))"
  from expect_returns[OF assms, of pattern timeout ?s2]
  obtain r0 s3 where "expect e pattern timeout ?s2 = Some (r0, s3)" by fastforce
  then show ?thesis
    by (cases r0) (simp_all add: send_and_expect_unfold Let_def)
qed

lemma invoke_shell_cases:
  "invoke_shell e s =
     (if \<not> connected s then Some (False, s)
      else if \<not> creates e (ncreates s) then Some (False, s\<lparr>ncreates := ncreates s + 1\<rparr>)
      else map_option (\<lambda>(out, s2). (True, update_activity e (s2\<lparr>in_shell := True\<rparr>)))
             (read_output e
                (s\<lparr>ncreates := ncreates s + 1, process := Some (ncreates s),
                   writer := Some (ncreates s), reader := Some (ncreates s),
                   screen := Some (new_screen (terminal_width (config s))
                                              (terminal_height (config s)))\<rparr>)))"
  by (auto simp: invoke_shell_def Let_def split: Option.bind_splits)

lemma invoke_shell_shell_step:
  assumes "invoke_shell e s = Some (b, s')"
  shows "shell_step s s' \<and> in_com s' = in_com s \<and> last_room (state s') = last_room (state s)"
proof (cases "connected s")
  case False
  with assms have "s' = s" by (simp add: invoke_shell_cases)
  then show ?thesis by simp
next
  case True
  show ?thesis
  proof (cases "creates e (ncreates s)")
    case False
    with assms True have "s' = s\<lparr>ncreates := ncreates s + 1\<rparr>"
      by (simp add: invoke_shell_cases)
    then show ?thesis by (simp add: shell_step_def shell_frame_def backoffs_def)
  next
    case cr: True
    let ?s1 = "s\<lparr>ncreates := ncreates s + 1, process := Some (ncreates s),
                   writer := Some (ncreates s), reader := Some (ncreates s),
                   screen := Some (new_screen (terminal_width (config s))
                                              (terminal_height (config s)))\<rparr>"
    from assms True cr have
      "map_option (\<lambda>(out, s2). (True, update_activity e (s2\<lparr>in_shell := True\<rparr>)))
         (read_output e ?s1) = Some (b, s')"
      by (simp add: invoke_shell_cases)
    then obtain out s2 where ro: "read_output e ?s1 = Some (out, s2)"
      and s': "s' = update_activity e (s2\<lparr>in_shell := True\<rparr>)"
      by (cases "read_output e ?s1") (simp, fastforce)
    from read_output_drained[OF ro] have d: "drained e ?s1 s2" by simp
    have a: "shell_step s ?s1" by (simp add: shell_step_def shell_frame_def backoffs_def)
    have c: "shell_step s2 s'"
      by (simp add: s' shell_step_def shell_frame_def backoffs_def update_activity_def
          time_time_def)
    have "shell_step s s'"
      using a drained_shell_step[OF d] c by (blast intro: shell_step_trans)
    moreover have "in_com s' = in_com s2" "last_room (state s') = last_room (state s2)"
      by (simp_all add: s' update_activity_def time_time_def)
    ultimately show ?thesis using drained_fields(9,20)[OF d] by simp
  qed
qed

lemma invoke_shell_returns:
  assumes "pausing e"
  shows "invoke_shell e s \<noteq> None"
proof -
  let ?s1 = "s\<lparr>ncreates := ncreates s + 1, process := Some (ncreates s),
                   writer := Some (ncreates s), reader := Some (ncreates s),
                   screen := Some (new_screen (terminal_width (config s))
                                              (terminal_height (config s)))\<rparr>"
  from assms obtain k where "\<not> flows (reads e (nreads ?s1 + k))" unfolding pausing_def by blast
  with read_output_returns[of ?s1 e k] have "read_output e ?s1 \<noteq> None" by blast
  then show ?thesis by (auto simp: invoke_shell_cases)
qed

lemma switch_room_cases:
  "switch_room e rm s =
     (if \<not> in_com s then Some (False, s)
      else map_option (\<lambda>(out, s2). (True, s2\<lparr>state := (state s2)\<lparr>last_room := rm\<rparr>\<rparr>))
             (read_output e (snd (send e (''j '' @ rm) True s))))"
  by (auto simp: switch_room_def Let_def split: Option.bind_splits prod.splits)

lemma switch_room_shell_step:
  assumes "switch_room e rm s = Some (b, s')"
  shows "shell_step s s' \<and> in_com s' = in_com s \<and>
         (if b then last_room (state s') = rm else s' = s)"
proof (cases "in_com s")
  case False
  with assms show ?thesis by (simp add: switch_room_cases)
next
  case True
  let ?s1 = "snd (send e (''j '' @ rm) True s)"
  from assms True have
    "map_option (\<lambda>(out, s2). (True, s2\<lparr>state := (state s2)\<lparr>last_room := rm\<rparr>\<rparr>))
       (read_output e ?s1) = Some (b, s')"
    by (simp add: switch_room_cases)
  then obtain out s2 where ro: "read_output e ?s1 = Some (out, s2)"
    and s': "s' = s2\<lparr>state := (state s2)\<lparr>last_room := rm\<rparr>\<rparr>" and b: "b"
    by (cases "read_output e ?s1") (simp, fastforce)
  from read_output_drained[OF ro] have d: "drained e ?s1 s2" by simp
  have c: "shell_step s2 s'" by (simp add: s' shell_step_def shell_frame_def backoffs_def)
  have "shell_step s s'"
    using send_shell_step[of s e "''j '' @ rm" True] drained_shell_step[OF d] c
    by (blast intro: shell_step_trans)
  moreover have "in_com ?s1 = in_com s" by (simp add: send_cases update_activity_def time_time_def)
  ultimately show ?thesis using drained_fields(9)[OF d] b by (simp add: s')
qed

lemma switch_room_returns:
  assumes "pausing e"
  shows "switch_room e rm s \<noteq> None"
proof -
  let ?s1 = "snd (send e (''j '' @ rm) True s)"
  from assms obtain k where "\<not> flows (reads e (nreads ?s1 + k))" unfolding pausing_def by blast
  with read_output_returns[of ?s1 e k] have "read_output e ?s1 \<noteq> None" by blast
  then show ?thesis by (auto simp: switch_room_cases)
qed

lemma switch_room_when_drain_ends:
  assumes "in_com s" and "\<not> flows (reads e (nreads s + k))"
  shows "\<exists>s'. switch_room e rm s = Some (True, s') \<and> last_room (state s') = rm \<and>
           in_com s' \<and>
           written s' = written s @
             (if writer s \<noteq> None \<and> writes e (nwrites s) then [''j '' @ rm @ [newline]] else [])"
proof -
  let ?s1 = "snd (send e (''j '' @ rm) True s)"
  obtain b where snd: "send e (''j '' @ rm) True s = (b, ?s1)"
    by (cases "send e (''j '' @ rm) True s") simp
  note sf = send_fields[OF snd]
  from assms(2) sf(1) have "\<not> flows (reads e (nreads ?s1 + k))" by simp
  with read_output_returns[of ?s1 e k] obtain out s2 where
    ro: "read_output e ?s1 = Some (out, s2)" by fastforce
  from read_output_drained[OF ro] have d: "drained e ?s1 s2" by simp
  let ?s' = "s2\<lparr>state := (state s2)\<lparr>last_room := rm\<rparr>\<rparr>"
  have "switch_room e rm s = Some (True, ?s')"
    using assms(1) ro by (simp add: switch_room_cases)
  moreover have "in_com ?s'" using drained_fields(9)[OF d] sf(5) assms(1) by simp
  moreover have "written ?s' = written ?s1"
    using drained_written[OF d] by (simp add: written_def)
  ultimately show ?thesis using sf(9,10) by (intro exI[of _ ?s']) auto
qed

text \<open>
  Claim C10. \<open>switch_room\<close> expects no pattern and does not look at the result of its
  send, but it drains the reader before it sets \<open>last_room\<close>. In chat mode, on a session
  with a reader whose remote has text ready at every read, that drain never ends:
  \<open>switch_room\<close> does not return, so it returns no \<open>True\<close> and never sets \<open>last_room\<close>.
\<close>

theorem switch_room_never_returns_under_flood:
  assumes "in_com s" and "reader s \<noteq> None" and "\<forall>k\<ge>nreads s. flows (reads e k)"
  shows "switch_room e rm s = None"
proof -
  let ?s1 = "snd (send e (''j '' @ rm) True s)"
  obtain b where snd: "send e (''j '' @ rm) True s = (b, ?s1)"
    by (cases "send e (''j '' @ rm) True s") simp
  note sf = send_fields[OF snd]
  have "reader ?s1 \<noteq> None" "\<forall>k\<ge>nreads ?s1. flows (reads e k)"
    using assms(2,3) sf(1,3) by simp_all
  then have "read_output e ?s1 = None" by (rule read_output_hangs)
  then show ?thesis using assms(1) by (simp add: switch_room_cases)
qed

text \<open>
  Claim C6, amended. \<open>invoke_shell\<close> does not look at the shell flag. On a connected
  session whose remote falls silent it asks for a new process at every call and returns
  whether that succeeded. When it did, the process, the writer and the reader are the new
  ones, the screen is a new one that holds only the text drained during the call, and the
  shell flag is set; when it did not, they are as before.
\<close>

theorem invoke_shell_replaces_shell:
  assumes "connected s" and "\<not> flows (reads e (nreads s + k))"
  shows "\<exists>s'. invoke_shell e s = Some (creates e (ncreates s), s') \<and>
           ncreates s' = ncreates s + 1 \<and>
           (if creates e (ncreates s)
            then process s' = Some (ncreates s) \<and> writer s' = Some (ncreates s) \<and>
                 reader s' = Some (ncreates s) \<and> in_shell s' \<and>
                 screen s' = Some (feed (new_screen (terminal_width (config s))
                                                    (terminal_height (config s)))
                                        (chunk_text e (nreads s) (nreads s')))
            else process s' = process s \<and> writer s' = writer s \<and> reader s' = reader s \<and>
                 in_shell s' = in_shell s \<and> screen s' = screen s)"
proof (cases "creates e (ncreates s)")
  case False
  with assms(1) have "invoke_shell e s = Some (False, s\<lparr>ncreates := ncreates s + 1\<rparr>)"
    by (simp add: invoke_shell_cases)
  with False show ?thesis by simp
next
  case True
  let ?s1 = "s\<lparr>ncreates := ncreates s + 1, process := Some (ncreates s),
                 writer := Some (ncreates s), reader := Some (ncreates s),
                 screen := Some (new_screen (terminal_width (config s))
                                            (terminal_height (config s)))\<rparr>"
  from assms(2) have "\<not> flows (reads e (nreads ?s1 + k))" by simp
  with read_output_returns[of ?s1 e k] obtain out s2 where
    ro: "read_output e ?s1 = Some (out, s2)" by fastforce
  from read_output_drained[OF ro] have d: "drained e ?s1 s2" by simp
  let ?s' = "update_activity e (s2\<lparr>in_shell := True\<rparr>)"
  have eq: "invoke_shell e s = Some (True, ?s')"
    using assms(1) True ro by (simp add: invoke_shell_cases)
  have f: "process ?s' = process s2" "writer ?s' = writer s2" "reader ?s' = reader s2"
    "screen ?s' = screen s2" "ncreates ?s' = ncreates s2" "nreads ?s' = nreads s2" "in_shell ?s'"
    by (simp_all add: update_activity_def time_time_def)
  have sc: "screen s2 = Some (feed (new_screen (terminal_width (config s))
                                                (terminal_height (config s)))
                                    (chunk_text e (nreads s) (nreads s2)))"
    using d by (simp add: drained_def)
  show ?thesis
    using True eq f sc drained_fields(4,5,6,17)[OF d]
    by (intro exI[of _ ?s']) simp
qed

section \<open>Chat operations and chat mode\<close>

lemma send_and_expect_written:
  assumes "send_and_expect e command pattern timeout s = Some (r, s')"
  shows "written s' = written s @
           (if writer s \<noteq> None \<and> writes e (nwrites s) then [command @ [newline]] else [])"
proof -
  let ?s1 = "s\<lparr>ticks := ticks s + 1, expect_buffer := []\<rparr>"
  let ?s2 = "snd (send e command True ?s1)"
  obtain b where snd: "send e command True ?s1 = (b, ?s2)"
    by (cases "send e command True ?s1") simp
  note sf = send_fields[OF snd]
  have w2: "written ?s2 = written s @
           (if writer s \<noteq> None \<and> writes e (nwrites s) then [command @ [newline]] else [])"
    using sf(9,10) by (auto simp: written_def)
  show ?thesis
  proof (cases "writer s = None \<or> \<not> writes e (nwrites s)")
    case True
    with assms have s': "s' = ?s2\<lparr>ticks := ticks ?s2 + 1\<rparr>"
      by (simp add: send_and_expect_unfold Let_def)
    have "written s' = written ?s2" by (subst s') (simp add: written_def)
    with w2 show ?thesis by simp
  next
    case False
    with assms obtain r0 s3 where ex: "expect e pattern timeout ?s2 = Some (r0, s3)"
      and s': "s' = s3 \<or> s' = s3\<lparr>ticks := ticks s3 + 1\<rparr>"
      by (auto simp: send_and_expect_unfold Let_def split: option.splits sum.splits)
    from expect_drained[OF ex] have d: "drained e ?s2 s3" .
    have "written s' = written s3" using s' by (auto simp: written_def)
    with drained_written[OF d] w2 show ?thesis by simp
  qed
qed

lemma com_enter_com_reliable:
  assumes "reliable ce" and "send_callback c" and "cstate c \<noteq> IN_COM"
  shows "com_enter_com ce c =
           (True, c\<lparr>sent := sent c @ enter_commands c,
                    ncalls := ncalls c + length (enter_commands c),
                    cstate := IN_COM, nfiles := nfiles c + 1\<rparr>)"
  using assms
  by (simp add: com_enter_com_def com_send_def file_write_def or_false_def reliable_def
      enter_commands_def)

lemma com_ops_reliable:
  assumes "reliable ce" and "send_callback c" and "cstate c \<noteq> IN_COM"
  shows "com_send_message ce msg c =
           (True, c\<lparr>sent := sent c @ enter_commands c @ [msg],
                    ncalls := ncalls c + length (enter_commands c) + 1,
                    cstate := IN_COM, nfiles := nfiles c + 2\<rparr>)"
    and "com_send_private ce user msg c =
           (True, c\<lparr>sent := sent c @ enter_commands c @ [''s '' @ user @ '' '' @ msg],
                    ncalls := ncalls c + length (enter_commands c) + 1,
                    cstate := IN_COM, nfiles := nfiles c + 2\<rparr>)"
    and "com_switch_room ce rm c =
           (True, c\<lparr>sent := sent c @ enter_commands c @ [''g '' @ rm],
                    ncalls := ncalls c + length (enter_commands c) + 1,
                    cstate := IN_COM, current_room := rm, nfiles := nfiles c + 2\<rparr>)"
    and "com_command ce cmd c =
           (True, c\<lparr>sent := sent c @ enter_commands c @ [cmd],
                    ncalls := ncalls c + length (enter_commands c) + 1,
                    cstate := IN_COM, nfiles := nfiles c + 1\<rparr>)"
  using assms
  by (simp_all add: com_send_message_def com_send_private_def com_switch_room_def com_command_def
      com_enter_com_reliable com_send_def file_write_def or_false_def reliable_def)

text \<open>
  Claim C5, amended. When the session of \<open>COMChatConnection\<close> is not in chat mode,
  \<open>send_message\<close>, \<open>send_private_message\<close> and \<open>switch_room\<close> return \<open>False\<close> and leave the
  session as it is, and \<open>get_online_users\<close> and \<open>list_rooms\<close> write their command (when the
  writer accepts it) without entering chat mode. The operations of \<open>COMClient\<close> do enter
  chat mode first: when the client is not in chat mode and neither its send callback nor
  its files raise, each of them sends the commands of \<open>enter_com\<close>, then its own command,
  returns \<open>True\<close> and leaves the client in chat mode.
\<close>

theorem chat_operations_and_chat_mode:
  "(\<not> in_com s \<longrightarrow>
      send_message e msg s = (False, s) \<and> send_private_message e user msg s = (False, s) \<and>
      switch_room e rm s = Some (False, s)) \<and>
   (\<forall>r s'. get_online_users e s = Some (r, s') \<longrightarrow>
      in_com s' = in_com s \<and>
      written s' = written s @
        (if writer s \<noteq> None \<and> writes e (nwrites s) then [''w'' @ [newline]] else [])) \<and>
   (\<forall>r s'. list_rooms e s = Some (r, s') \<longrightarrow>
      in_com s' = in_com s \<and>
      written s' = written s @
        (if writer s \<noteq> None \<and> writes e (nwrites s) then [''l'' @ [newline]] else [])) \<and>
   (reliable ce \<and> send_callback c \<and> cstate c \<noteq> IN_COM \<longrightarrow>
      fst (com_send_message ce msg c) \<and> cstate (snd (com_send_message ce msg c)) = IN_COM \<and>
      sent (snd (com_send_message ce msg c)) = sent c @ enter_commands c @ [msg] \<and>
      fst (com_send_private ce user msg c) \<and>
      cstate (snd (com_send_private ce user msg c)) = IN_COM \<and>
      sent (snd (com_send_private ce user msg c))
        = sent c @ enter_commands c @ [''s '' @ user @ '' '' @ msg] \<and>
      fst (com_switch_room ce rm c) \<and> cstate (snd (com_switch_room ce rm c)) = IN_COM \<and>
      sent (snd (com_switch_room ce rm c)) = sent c @ enter_commands c @ [''g '' @ rm] \<and>
      fst (com_command ce cmd c) \<and> cstate (snd (com_command ce cmd c)) = IN_COM \<and>
      sent (snd (com_command ce cmd c)) = sent c @ enter_commands c @ [cmd])"
proof (intro conjI impI allI)
  assume "\<not> in_com s"
  then show "send_message e msg s = (False, s)" "send_private_message e user msg s = (False, s)"
    "switch_room e rm s = Some (False, s)"
    by (simp_all add: send_message_def send_private_message_def switch_room_cases)
next
  fix r s' assume a: "get_online_users e s = Some (r, s')"
  then have b: "send_and_expect e ''w'' COM_PROMPT 3 s = Some (r, s')"
    by (simp add: get_online_users_def)
  from send_and_expect_shell_step[OF b] show "in_com s' = in_com s" by simp
  from send_and_expect_written[OF b]
  show "written s' = written s @
        (if writer s \<noteq> None \<and> writes e (nwrites s) then [''w'' @ [newline]] else [])" .
next
  fix r s' assume a: "list_rooms e s = Some (r, s')"
  then have b: "send_and_expect e ''l'' COM_PROMPT 3 s = Some (r, s')"
    by (simp add: list_rooms_def)
  from send_and_expect_shell_step[OF b] show "in_com s' = in_com s" by simp
  from send_and_expect_written[OF b]
  show "written s' = written s @
        (if writer s \<noteq> None \<and> writes e (nwrites s) then [''l'' @ [newline]] else [])" .
next
  assume a: "reliable ce \<and> send_callback c \<and> cstate c \<noteq> IN_COM"
  then have r: "reliable ce" and cb: "send_callback c" and st: "cstate c \<noteq> IN_COM" by simp_all
  note ops = com_ops_reliable[OF r cb st]
  show "fst (com_send_message ce msg c)" "cstate (snd (com_send_message ce msg c)) = IN_COM"
    "sent (snd (com_send_message ce msg c)) = sent c @ enter_commands c @ [msg]"
    by (simp_all add: ops(1))
  show "fst (com_send_private ce user msg c)"
    "cstate (snd (com_send_private ce user msg c)) = IN_COM"
    "sent (snd (com_send_private ce user msg c))
        = sent c @ enter_commands c @ [''s '' @ user @ '' '' @ msg]"
    by (simp_all add: ops(2))
  show "fst (com_switch_room ce rm c)" "cstate (snd (com_switch_room ce rm c)) = IN_COM"
    "sent (snd (com_switch_room ce rm c)) = sent c @ enter_commands c @ [''g '' @ rm]"
    by (simp_all add: ops(3))
  show "fst (com_command ce cmd c)" "cstate (snd (com_command ce cmd c)) = IN_COM"
    "sent (snd (com_command ce cmd c)) = sent c @ enter_commands c @ [cmd]"
    by (simp_all add: ops(4))
qed

section \<open>Entering chat mode and reconnecting\<close>

lemma enter_com_connected:
  "connected s \<Longrightarrow>
   enter_com e rm s =
     (case (if \<not> in_shell s then invoke_shell e s else Some (True, s)) of
        None \<Rightarrow> None
      | Some (ok2, s2) \<Rightarrow>
          if \<not> ok2 then Some (Inr False, s2)
          else (case send_and_expect e ''com'' COM_MODE_PROMPT 5 s2 of
                  None \<Rightarrow> None
                | Some (Inl x, s3) \<Rightarrow> Some (Inl x, s3)
                | Some (Inr result, s3) \<Rightarrow>
                    if success result then
                      (if rm \<noteq> ''lobby''
                       then map_option (\<lambda>(b, s5). (Inr b, s5))
                              (switch_room e rm
                                 (s3\<lparr>in_com := True, state := (state s3)\<lparr>last_room := rm\<rparr>\<rparr>))
                       else Some (Inr True,
                                  s3\<lparr>in_com := True, state := (state s3)\<lparr>last_room := rm\<rparr>\<rparr>))
                    else Some (Inr False, s3)))"
  by (simp add: enter_com_def Let_def split: option.splits sum.splits prod.splits)

lemma enter_com_shell_step:
  assumes "connected s" and "enter_com e rm s = Some (r, s')"
  shows "shell_step s s' \<and> (r = Inr True \<longrightarrow> in_com s' \<and> last_room (state s') = rm) \<and>
         (last_room (state s') = last_room (state s) \<or> last_room (state s') = rm)"
proof -
  let ?i = "if \<not> in_shell s then invoke_shell e s else Some (True, s)"
  note ec = assms(2)[unfolded enter_com_connected[OF assms(1)]]
  from ec obtain ok2 s2 where i: "?i = Some (ok2, s2)"
    by (cases ?i) auto
  have i2: "shell_step s s2 \<and> last_room (state s2) = last_room (state s)"
  proof (cases "in_shell s")
    case True
    with i show ?thesis by simp
  next
    case False
    with i have "invoke_shell e s = Some (ok2, s2)" by simp
    from invoke_shell_shell_step[OF this] show ?thesis by simp
  qed
  show ?thesis
  proof (cases ok2)
    case False
    with ec i have "s' = s2" "r = Inr False" by simp_all
    with i2 show ?thesis by simp
  next
    case True
    let ?se = "send_and_expect e ''com'' COM_MODE_PROMPT 5 s2"
    from ec i True obtain r3 s3 where se: "?se = Some (r3, s3)"
      by (cases ?se) auto
    from send_and_expect_shell_step[OF se]
    have s3: "shell_step s2 s3" "last_room (state s3) = last_room (state s2)" by simp_all
    have s03: "shell_step s s3" using i2 s3(1) by (blast intro: shell_step_trans)
    show ?thesis
    proof (cases r3)
      case (Inl x)
      with ec i True se have "s' = s3" "r = Inl x" by simp_all
      with s03 s3(2) i2 show ?thesis by simp
    next
      case (Inr result)
      show ?thesis
      proof (cases "success result")
        case False
        with ec i True se Inr have "s' = s3" "r = Inr False" by simp_all
        with s03 s3(2) i2 show ?thesis by simp
      next
        case suc: True
        let ?s4 = "s3\<lparr>in_com := True, state := (state s3)\<lparr>last_room := rm\<rparr>\<rparr>"
        have s4: "shell_step s3 ?s4" by (simp add: shell_step_def shell_frame_def backoffs_def)
        have s04: "shell_step s ?s4" using s03 s4 by (rule shell_step_trans)
        show ?thesis
        proof (cases "rm = ''lobby''")
          case True
          with ec i \<open>ok2\<close> se Inr suc have "s' = ?s4" "r = Inr True" by simp_all
          with s04 show ?thesis by simp
        next
          case False
          with ec i \<open>ok2\<close> se Inr suc have
            "map_option (\<lambda>(b, s5). (Inr b, s5)) (switch_room e rm ?s4) = Some (r, s')"
            by simp
          then obtain b where sw: "switch_room e rm ?s4 = Some (b, s')" and r: "r = Inr b"
            by (cases "switch_room e rm ?s4") (simp, fastforce)
          from switch_room_shell_step[OF sw]
          have s5: "shell_step ?s4 s'" "in_com s' = in_com ?s4"
            "if b then last_room (state s') = rm else s' = ?s4" by simp_all
          have "shell_step s s'" using s04 s5(1) by (rule shell_step_trans)
          moreover have "in_com s'" using s5(2) by simp
          moreover have "last_room (state s') = rm" using s5(3) by (cases b) simp_all
          ultimately show ?thesis by simp
        qed
      qed
    qed
  qed
qed

lemma enter_com_returns:
  assumes "pausing e" and "clock_advances e" and "connected s"
  shows "enter_com e rm s \<noteq> None"
proof -
  let ?i = "if \<not> in_shell s then invoke_shell e s else Some (True, s)"
  have "?i \<noteq> None" using invoke_shell_returns[OF assms(1), of s]
    by (cases "in_shell s") simp_all
  then obtain ok2 s2 where i: "?i = Some (ok2, s2)" by fastforce
  show ?thesis
  proof (cases ok2)
    case False
    with i show ?thesis by (simp add: enter_com_connected[OF assms(3)])
  next
    case True
    from send_and_expect_returns[OF assms(1,2), of "''com''" COM_MODE_PROMPT 5 s2]
    obtain r3 s3 where se: "send_and_expect e ''com'' COM_MODE_PROMPT 5 s2 = Some (r3, s3)"
      by fastforce
    show ?thesis
    proof (cases r3)
      case (Inl x)
      with i True se show ?thesis by (simp add: enter_com_connected[OF assms(3)])
    next
      case (Inr result)
      let ?s4 = "s3\<lparr>in_com := True, state := (state s3)\<lparr>last_room := rm\<rparr>\<rparr>"
      from switch_room_returns[OF assms(1), of rm ?s4] obtain p where
        "switch_room e rm ?s4 = Some p" by fastforce
      with i True se Inr show ?thesis
        by (simp add: enter_com_connected[OF assms(3)])
    qed
  qed
qed

lemma connect_connected: "connected s \<Longrightarrow> connect e s = (True, s)"
  by (simp add: connect_def)

lemma connect_disconnected:
  assumes "\<not> connected s" and "connect e s = (c, s1)"
  shows "c = (connects e (nconnects s) = Established)" "connected s1 = c"
    "nconnects s1 = nconnects s + 1" "backoffs s1 = backoffs s" "written s1 = written s"
    "last_room (state s1) = last_room (state s)" "in_com s1 = in_com s"
    "reconnect_count (state s1) = reconnect_count (state s) + (if c then 1 else 0)"
    "c \<longrightarrow> is_connected (state s1)"
proof -
  have "c = (connects e (nconnects s) = Established) \<and> connected s1 = c \<and>
    nconnects s1 = nconnects s + 1 \<and> backoffs s1 = backoffs s \<and> written s1 = written s \<and>
    last_room (state s1) = last_room (state s) \<and> in_com s1 = in_com s \<and>
    reconnect_count (state s1) = reconnect_count (state s) + (if c then 1 else 0) \<and>
    (c \<longrightarrow> is_connected (state s1))"
  proof (cases "connects e (nconnects s)")
    case Established
    with assms show ?thesis
      by (cases "is_persistent (config s)")
         (auto simp add: connect_def time_time_def Let_def backoffs_def written_def)
  next
    case ConnectTimeout
    with assms show ?thesis
      by (auto simp add: connect_def backoffs_def written_def)
  next
    case ConnectFailed
    with assms show ?thesis
      by (auto simp add: connect_def backoffs_def written_def)
  qed
  then show "c = (connects e (nconnects s) = Established)" "connected s1 = c"
    "nconnects s1 = nconnects s + 1" "backoffs s1 = backoffs s" "written s1 = written s"
    "last_room (state s1) = last_room (state s)" "in_com s1 = in_com s"
    "reconnect_count (state s1) = reconnect_count (state s) + (if c then 1 else 0)"
    "c \<longrightarrow> is_connected (state s1)"
    by blast+
qed

lemma reconnect_attempts_Suc:
  "reconnect_attempts e (Suc n) d s =
     (case attempt e s of
        None \<Rightarrow> None
      | Some (won, s2) \<Rightarrow>
          if won then Some (True, s2)
          else reconnect_attempts e n (min (d * 2) 60) (s2\<lparr>trace := trace s2 @ [Backoff d]\<rparr>))"
  by (simp add: attempt_def Let_def split: prod.splits option.splits)


declare reconnect_attempts.simps(2) [simp del]

lemma attempt_result:
  assumes "attempt e s = Some (won, s2)"
  shows "last_room (state s2) = last_room (state s)" "backoffs s2 = backoffs s"
    "won \<longrightarrow> connected s2 \<and> in_com s2"
    "connected s \<longrightarrow> connected s2 \<and> reconnect_count (state s2) = reconnect_count (state s) \<and>
        is_connected (state s2) = is_connected (state s) \<and> nconnects s2 = nconnects s"
    "\<not> connected s \<longrightarrow>
        reconnect_count (state s2) = reconnect_count (state s) + (if connected s2 then 1 else 0) \<and>
        (connected s2 \<longrightarrow> is_connected (state s2)) \<and> nconnects s2 = nconnects s + 1 \<and>
        connected s2 = (connects e (nconnects s) = Established)"
proof -
  obtain c s1 where co: "connect e s = (c, s1)" by (cases "connect e s") simp
  have pre: "last_room (state s1) = last_room (state s)" "backoffs s1 = backoffs s"
    "connected s1 = c"
    "connected s \<longrightarrow> s1 = s"
    "\<not> connected s \<longrightarrow>
        reconnect_count (state s1) = reconnect_count (state s) + (if c then 1 else 0) \<and>
        (c \<longrightarrow> is_connected (state s1)) \<and> nconnects s1 = nconnects s + 1 \<and>
        c = (connects e (nconnects s) = Established)"
  proof -
    show "last_room (state s1) = last_room (state s)" "backoffs s1 = backoffs s"
      "connected s1 = c" "connected s \<longrightarrow> s1 = s"
      using co connect_connected[of s e] connect_disconnected(2,4,6)[OF _ co]
      by (cases "connected s"; simp)+
    show "\<not> connected s \<longrightarrow>
        reconnect_count (state s1) = reconnect_count (state s) + (if c then 1 else 0) \<and>
        (c \<longrightarrow> is_connected (state s1)) \<and> nconnects s1 = nconnects s + 1 \<and>
        c = (connects e (nconnects s) = Established)"
      using connect_disconnected(1,3,8,9)[OF _ co] by blast
  qed
  have main: "last_room (state s2) = last_room (state s1) \<and> shell_step s1 s2 \<and>
        (won \<longrightarrow> c \<and> in_com s2)"
  proof (cases c)
    case False
    with assms co have "s2 = s1" "\<not> won" by (simp_all add: attempt_def)
    then show ?thesis by simp
  next
    case True
    with assms co have
      "map_option (\<lambda>(r, s'). (r = Inr True, s')) (enter_com e (last_room (state s1)) s1)
         = Some (won, s2)"
      by (simp add: attempt_def)
    then obtain r where ec: "enter_com e (last_room (state s1)) s1 = Some (r, s2)"
      and w: "won = (r = Inr True)"
      by (cases "enter_com e (last_room (state s1)) s1") (simp, fastforce)
    have "connected s1" using pre(3) True by simp
    from enter_com_shell_step[OF this ec] show ?thesis using w True by auto
  qed
  then have ss: "shell_step s1 s2" by simp
  note f = shell_step_fields[OF ss]
  show "last_room (state s2) = last_room (state s)" using main pre(1) by simp
  show "backoffs s2 = backoffs s" using f(8) pre(2) by simp
  show "won \<longrightarrow> connected s2 \<and> in_com s2" using main f(2) pre(3) by simp
  show "connected s \<longrightarrow> connected s2 \<and> reconnect_count (state s2) = reconnect_count (state s) \<and>
        is_connected (state s2) = is_connected (state s) \<and> nconnects s2 = nconnects s"
    using pre(4) f(2,3,6,7) by auto
  show "\<not> connected s \<longrightarrow>
        reconnect_count (state s2) = reconnect_count (state s) + (if connected s2 then 1 else 0) \<and>
        (connected s2 \<longrightarrow> is_connected (state s2)) \<and> nconnects s2 = nconnects s + 1 \<and>
        connected s2 = (connects e (nconnects s) = Established)"
    using pre(3,5) f(2,3,6,7) by auto
qed

lemma attempt_returns:
  assumes "pausing e" and "clock_advances e"
  shows "attempt e s \<noteq> None"
proof -
  obtain c s1 where co: "connect e s = (c, s1)" by (cases "connect e s") simp
  show ?thesis
  proof (cases c)
    case False
    with co show ?thesis by (simp add: attempt_def)
  next
    case True
    have "connected s1"
      using co True connect_connected[of s e] connect_disconnected(2)[OF _ co]
      by (cases "connected s") simp_all
    from enter_com_returns[OF assms this, of "last_room (state s1)"] show ?thesis
      using co True by (simp add: attempt_def)
  qed
qed

lemma backoffs_Backoff [simp]:
  "backoffs (s\<lparr>trace := trace s @ [Backoff d]\<rparr>) = backoffs s @ [d]"
  by (simp add: backoffs_def)

lemma reconnect_attempts_result:
  assumes "reconnect_attempts e n d s = Some (b, s')"
  shows "last_room (state s') = last_room (state s) \<and>
         (connected s \<longrightarrow> connected s' \<and> is_connected (state s') = is_connected (state s) \<and>
            reconnect_count (state s') = reconnect_count (state s)) \<and>
         (if b then connected s' \<and> in_com s' \<and>
                   (\<not> connected s \<longrightarrow> is_connected (state s') \<and>
                      reconnect_count (state s') = reconnect_count (state s) + 1) \<and>
                   (\<exists>m<n. backoffs s' = backoffs s @ backoff_schedule d m)
          else backoffs s' = backoffs s @ backoff_schedule d n)"
  using assms
proof (induction n arbitrary: d s)
  case 0
  then show ?case by simp
next
  case (Suc n)
  from Suc.prems obtain won s2 where at: "attempt e s = Some (won, s2)"
    by (cases "attempt e s") (auto simp: reconnect_attempts_Suc)
  note ar = attempt_result[OF at]
  show ?case
  proof (cases won)
    case True
    with Suc.prems at have bs: "b" "s' = s2" by (simp_all add: reconnect_attempts_Suc)
    have "backoffs s' = backoffs s @ backoff_schedule d 0" using ar(2) bs by simp
    then have "\<exists>m<Suc n. backoffs s' = backoffs s @ backoff_schedule d m" by blast
    then show ?thesis using ar(1,3,4,5) True bs by simp
  next
    case False
    let ?s3 = "s2\<lparr>trace := trace s2 @ [Backoff d]\<rparr>"
    from Suc.prems at False have
      rec: "reconnect_attempts e n (min (d * 2) 60) ?s3 = Some (b, s')"
      by (simp add: reconnect_attempts_Suc)
    note ih = Suc.IH[OF rec]
    have s3: "last_room (state ?s3) = last_room (state s)" "connected ?s3 = connected s2"
      "reconnect_count (state ?s3) = reconnect_count (state s2)"
      "is_connected (state ?s3) = is_connected (state s2)"
      "backoffs ?s3 = backoffs s @ [d]"
      using ar(1,2) by simp_all
    have lr: "last_room (state s') = last_room (state s)" using ih s3(1) by simp
    have keep: "connected s \<longrightarrow> connected s' \<and>
            is_connected (state s') = is_connected (state s) \<and>
            reconnect_count (state s') = reconnect_count (state s)"
      using ih s3(2,3,4) ar(4) by simp
    show ?thesis
    proof (cases b)
      case bF: False
      with ih s3(5) lr keep show ?thesis by simp
    next
      case bT: True
      with ih obtain m where m: "m < n"
        "backoffs s' = backoffs ?s3 @ backoff_schedule (min (d * 2) 60) m" by auto
      then have "backoffs s' = backoffs s @ backoff_schedule d (Suc m)" using s3(5) by simp
      with m(1) have ex: "\<exists>m<Suc n. backoffs s' = backoffs s @ backoff_schedule d m"
        by (metis Suc_less_eq)
      have fresh: "\<not> connected s \<longrightarrow> is_connected (state s') \<and>
                      reconnect_count (state s') = reconnect_count (state s) + 1"
        using ih bT s3(2,3,4) ar(5) by (cases "connected s2") simp_all
      show ?thesis using ih bT lr keep ex fresh by simp
    qed
  qed
qed

lemma reconnect_attempts_returns:
  assumes "pausing e" and "clock_advances e"
  shows "reconnect_attempts e n d s \<noteq> None"
proof (induction n arbitrary: d s)
  case 0
  show ?case by simp
next
  case (Suc n)
  from attempt_returns[OF assms, of s] obtain won s2 where "attempt e s = Some (won, s2)"
    by fastforce
  with Suc.IH show ?case by (cases won) (simp_all add: reconnect_attempts_Suc)
qed

lemma reconnect_attempts_refused:
  assumes "\<forall>k. connects e k \<noteq> Established" and "\<not> connected s"
  shows "\<exists>s'. reconnect_attempts e n d s = Some (False, s') \<and> \<not> connected s' \<and>
           nconnects s' = nconnects s + n \<and> written s' = written s \<and>
           backoffs s' = backoffs s @ backoff_schedule d n"
  using assms(2)
proof (induction n arbitrary: d s)
  case 0
  then show ?case by simp
next
  case (Suc n)
  obtain c s1 where co: "connect e s = (c, s1)" by (cases "connect e s") simp
  note cd = connect_disconnected[OF Suc.prems co]
  have c: "\<not> c" using cd(1) assms(1) by simp
  then have at: "attempt e s = Some (False, s1)" using co by (simp add: attempt_def)
  let ?s3 = "s1\<lparr>trace := trace s1 @ [Backoff d]\<rparr>"
  have "\<not> connected ?s3" using cd(2) c by simp
  from Suc.IH[OF this, of "min (d * 2) 60"] obtain s' where
    s': "reconnect_attempts e n (min (d * 2) 60) ?s3 = Some (False, s')" "\<not> connected s'"
      "nconnects s' = nconnects ?s3 + n" "written s' = written ?s3"
      "backoffs s' = backoffs ?s3 @ backoff_schedule (min (d * 2) 60) n"
    by blast
  have "written ?s3 = written s" using cd(5) by (simp add: written_def)
  then show ?case using s' at cd(3,4)
    by (intro exI[of _ s']) (simp add: reconnect_attempts_Suc)
qed

lemma take_backoff_schedule:
  "m \<le> n \<Longrightarrow> take m (backoff_schedule d n) = backoff_schedule d m"
proof (induction n arbitrary: d m)
  case 0
  then show ?case by simp
next
  case (Suc n)
  then show ?case by (cases m) simp_all
qed

lemma backoff_schedule_5: "backoff_schedule 5 5 = [5, 10, 20, 40, 60]"
  by (simp add: eval_nat_numeral)

lemma send_and_expect_success:
  assumes "send_and_expect e command pattern timeout s = Some (Inr result, s')"
    and "success result"
  shows "\<exists>b. re_search e pattern b = Some True"
proof (cases "writer s = None \<or> \<not> writes e (nwrites s)")
  case True
  with assms(1) have "\<not> success result"
    by (auto simp: send_and_expect_unfold Let_def)
  with assms(2) show ?thesis by simp
next
  case False
  let ?s2 = "snd (send e command True (s\<lparr>ticks := ticks s + 1, expect_buffer := []\<rparr>))"
  from assms(1) False obtain r0 s3 where ex: "expect e pattern timeout ?s2 = Some (r0, s3)"
    by (cases "expect e pattern timeout ?s2") (auto simp: send_and_expect_unfold Let_def)
  show ?thesis
  proof (cases r0)
    case (Inl x)
    with assms(1) False ex show ?thesis by (simp add: send_and_expect_unfold Let_def)
  next
    case (Inr found)
    with assms False ex have "found" by (auto simp: send_and_expect_unfold Let_def)
    with expect_outcome[OF ex] Inr show ?thesis by auto
  qed
qed

lemma enter_com_needs_prompt:
  assumes "connected s" and "enter_com e rm s = Some (Inr True, s')"
  shows "\<exists>b. re_search e COM_MODE_PROMPT b = Some True"
proof -
  let ?i = "if \<not> in_shell s then invoke_shell e s else Some (True, s)"
  note ec = assms(2)[unfolded enter_com_connected[OF assms(1)]]
  from ec obtain ok2 s2 where i: "?i = Some (ok2, s2)" by (cases ?i) auto
  have ok2: ok2
  proof (rule ccontr)
    assume "\<not> ok2"
    with ec i show False by simp
  qed
  let ?se = "send_and_expect e ''com'' COM_MODE_PROMPT 5 s2"
  from ec i ok2 obtain r3 s3 where se: "?se = Some (r3, s3)" by (cases ?se) auto
  show ?thesis
  proof (cases r3)
    case (Inl x)
    with ec i ok2 se show ?thesis by simp
  next
    case (Inr result)
    have "success result"
    proof (rule ccontr)
      assume "\<not> success result"
      with ec i ok2 se Inr show False by simp
    qed
    with se Inr send_and_expect_success show ?thesis by blast
  qed
qed

lemma attempt_needs_prompt:
  assumes "attempt e s = Some (True, s2)"
  shows "\<exists>b. re_search e COM_MODE_PROMPT b = Some True"
proof -
  obtain c s1 where co: "connect e s = (c, s1)" by (cases "connect e s") simp
  have c: c
  proof (rule ccontr)
    assume "\<not> c"
    with assms co show False by (simp add: attempt_def)
  qed
  have cs: "connected s1"
    using co c connect_connected[of s e] connect_disconnected(2)[OF _ co]
    by (cases "connected s") simp_all
  from assms co c have
    "map_option (\<lambda>(r, s'). (r = Inr True, s')) (enter_com e (last_room (state s1)) s1)
       = Some (True, s2)"
    by (simp add: attempt_def)
  then have "enter_com e (last_room (state s1)) s1 = Some (Inr True, s2)"
    by (cases "enter_com e (last_room (state s1)) s1") (simp, fastforce)
  from enter_com_needs_prompt[OF cs this] show ?thesis .
qed

lemma reconnect_all_fail:
  assumes "\<forall>s1 p. attempt e s1 = Some p \<longrightarrow> \<not> fst p"
    and "reconnect_attempts e n d s = Some (b, s')"
  shows "\<not> b"
  using assms(2)
proof (induction n arbitrary: d s)
  case 0
  then show ?case by simp
next
  case (Suc n)
  from Suc.prems obtain won s2 where at: "attempt e s = Some (won, s2)"
    by (cases "attempt e s") (auto simp: reconnect_attempts_Suc)
  with assms(1) have "\<not> won" by fastforce
  with Suc.prems at have
    "reconnect_attempts e n (min (d * 2) 60) (s2\<lparr>trace := trace s2 @ [Backoff d]\<rparr>) = Some (b, s')"
    by (simp add: reconnect_attempts_Suc)
  from Suc.IH[OF this] show ?case .
qed



text \<open>
  Claim C3. For a remote that falls silent again and again and a clock that advances,
  the supervisor returns a plain boolean whatever the connects, the shell and
  \<open>re.search\<close> do, also when \<open>enter_com\<close> raises: no exception leaves it. When it returns
  \<open>False\<close>, every one of its five attempts has failed and it has slept the delays 5, 10,
  20, 40 and 60 seconds, one after each failed attempt; when it returns \<open>True\<close> it has
  slept fewer than five of them. When no attempt succeeds, whether its connect or its
  chat-mode entry is what fails, it returns \<open>False\<close> after the five delays: in particular
  when the chat prompt is never found in what the remote sends, also when every connect
  succeeds. When the session is disconnected and every connect fails, it returns
  \<open>False\<close> after exactly five connects, with nothing written and the session still
  disconnected.
\<close>

theorem auto_reconnect_gives_up:
  "(pausing e \<and> clock_advances e \<longrightarrow>
      (\<exists>b s'. auto_reconnect e s = Some (b, s') \<and>
         (if b then \<exists>m<5. backoffs s' = backoffs s @ take m [5, 10, 20, 40, 60]
          else backoffs s' = backoffs s @ [5, 10, 20, 40, 60]))) \<and>
   (pausing e \<and> clock_advances e \<and> (\<forall>s1 s2. attempt e s1 \<noteq> Some (True, s2)) \<longrightarrow>
      (\<exists>s'. auto_reconnect e s = Some (False, s') \<and>
         backoffs s' = backoffs s @ [5, 10, 20, 40, 60])) \<and>
   (pausing e \<and> clock_advances e \<and> (\<forall>b. re_search e COM_MODE_PROMPT b \<noteq> Some True) \<longrightarrow>
      (\<exists>s'. auto_reconnect e s = Some (False, s') \<and>
         backoffs s' = backoffs s @ [5, 10, 20, 40, 60])) \<and>
   (\<not> connected s \<and> (\<forall>k. connects e k \<noteq> Established) \<longrightarrow>
      (\<exists>s'. auto_reconnect e s = Some (False, s') \<and> \<not> connected s' \<and>
         nconnects s' = nconnects s + 5 \<and> written s' = written s \<and>
         backoffs s' = backoffs s @ [5, 10, 20, 40, 60]))"
proof -
  have live: "\<exists>b s'. reconnect_attempts e 5 5 s = Some (b, s') \<and>
         (if b then \<exists>m<5. backoffs s' = backoffs s @ take m [5, 10, 20, 40, 60]
          else backoffs s' = backoffs s @ [5, 10, 20, 40, 60])"
    if "pausing e \<and> clock_advances e"
  proof -
    from that have "reconnect_attempts e 5 5 s \<noteq> None" by (simp add: reconnect_attempts_returns)
    then obtain b s' where r: "reconnect_attempts e 5 5 s = Some (b, s')" by fastforce
    note res = reconnect_attempts_result[OF r]
    have "if b then \<exists>m<5. backoffs s' = backoffs s @ take m [5, 10, 20, 40, 60]
            else backoffs s' = backoffs s @ [5, 10, 20, 40, 60]"
    proof (cases b)
      case False
      with res show ?thesis by (simp add: backoff_schedule_5)
    next
      case True
      with res obtain m where m: "m < 5" "backoffs s' = backoffs s @ backoff_schedule 5 m"
        by auto
      from m(1) have "take m (backoff_schedule 5 5) = backoff_schedule 5 m"
        by (intro take_backoff_schedule) simp
      with m True show ?thesis by (auto simp: backoff_schedule_5)
    qed
    with r show ?thesis by blast
  qed
  have fail: "\<exists>s'. reconnect_attempts e 5 5 s = Some (False, s') \<and>
         backoffs s' = backoffs s @ [5, 10, 20, 40, 60]"
    if l: "pausing e \<and> clock_advances e" and n: "\<forall>s1 s2. attempt e s1 \<noteq> Some (True, s2)"
  proof -
    from live[OF l] obtain b s' where r: "reconnect_attempts e 5 5 s = Some (b, s')"
      and d: "if b then \<exists>m<5. backoffs s' = backoffs s @ take m [5, 10, 20, 40, 60]
          else backoffs s' = backoffs s @ [5, 10, 20, 40, 60]"
      by blast
    from n have "\<forall>s1 p. attempt e s1 = Some p \<longrightarrow> \<not> fst p" by auto
    from reconnect_all_fail[OF this r] have "\<not> b" .
    with r d show ?thesis by simp
  qed
  have mute: "\<forall>s1 s2. attempt e s1 \<noteq> Some (True, s2)"
    if "\<forall>b. re_search e COM_MODE_PROMPT b \<noteq> Some True"
    using that attempt_needs_prompt by blast
  have refused: "\<exists>s'. reconnect_attempts e 5 5 s = Some (False, s') \<and> \<not> connected s' \<and>
         nconnects s' = nconnects s + 5 \<and> written s' = written s \<and>
         backoffs s' = backoffs s @ [5, 10, 20, 40, 60]"
    if "\<not> connected s \<and> (\<forall>k. connects e k \<noteq> Established)"
  proof -
    from that have "\<forall>k. connects e k \<noteq> Established" "\<not> connected s" by simp_all
    from reconnect_attempts_refused[OF this, of 5 5] show ?thesis
      by (simp add: backoff_schedule_5)
  qed
  show ?thesis
    unfolding auto_reconnect_def
  proof (intro conjI impI)
    assume "pausing e \<and> clock_advances e"
    then show "\<exists>b s'. reconnect_attempts e 5 5 s = Some (b, s') \<and>
         (if b then \<exists>m<5. backoffs s' = backoffs s @ take m [5, 10, 20, 40, 60]
          else backoffs s' = backoffs s @ [5, 10, 20, 40, 60])" by (rule live)
  next
    assume "pausing e \<and> clock_advances e \<and> (\<forall>s1 s2. attempt e s1 \<noteq> Some (True, s2))"
    then show "\<exists>s'. reconnect_attempts e 5 5 s = Some (False, s') \<and>
         backoffs s' = backoffs s @ [5, 10, 20, 40, 60]" using fail by blast
  next
    assume "pausing e \<and> clock_advances e \<and> (\<forall>b. re_search e COM_MODE_PROMPT b \<noteq> Some True)"
    then show "\<exists>s'. reconnect_attempts e 5 5 s = Some (False, s') \<and>
         backoffs s' = backoffs s @ [5, 10, 20, 40, 60]" using fail mute by blast
  next
    assume "\<not> connected s \<and> (\<forall>k. connects e k \<noteq> Established)"
    then show "\<exists>s'. reconnect_attempts e 5 5 s = Some (False, s') \<and> \<not> connected s' \<and>
         nconnects s' = nconnects s + 5 \<and> written s' = written s \<and>
         backoffs s' = backoffs s @ [5, 10, 20, 40, 60]" by (rule refused)
  qed
qed


section \<open>Message extraction\<close>

lemma dispatched_Dispatched [simp]:
  "dispatched (s\<lparr>trace := trace s @ [Dispatched m]\<rparr>) = dispatched s @ [m]"
  by (simp add: dispatched_def)







section \<open>Rendering the screen\<close>

lemma split_nl_not_Nil [simp]: "split_nl s \<noteq> []"
  by (induction s) (auto split: list.splits)

lemma split_nl_char:
  "c \<noteq> newline \<Longrightarrow> split_nl (c # cs) = (c # hd (split_nl cs)) # tl (split_nl cs)"
  by (cases "split_nl cs") simp_all

lemma printable_not_newline: "printable c \<Longrightarrow> c \<noteq> newline"
  by (auto simp: printable_def newline_def)

lemma feed_Cons: "feed scr (c # cs) = feed (put_char c scr) cs"
  by (simp add: feed_def)

lemma shown_eq:
  "shown cx cy ls buf y x =
     (if y = cy then (if 0 < length ls \<and> cx \<le> x \<and> x - cx < length (ls ! 0)
                      then [ls ! 0 ! (x - cx)] else buf y x)
      else if cy < y \<and> y - cy < length ls \<and> x < length (ls ! (y - cy))
           then [ls ! (y - cy) ! x] else buf y x)"
  by (simp add: shown_def Let_def)

lemma shown_newline:
  "shown 0 (Suc cy) ls buf = shown cx cy ([] # ls) buf"
proof (intro ext)
  fix y x
  show "shown 0 (Suc cy) ls buf y x = shown cx cy ([] # ls) buf y x"
  proof (cases "cy < y")
    case False
    then show ?thesis by (simp add: shown_eq)
  next
    case True
    then obtain k where k: "y = Suc (cy + k)" using less_imp_Suc_add by blast
    show ?thesis
    proof (cases k)
      case 0
      with k show ?thesis by (simp add: shown_eq)
    next
      case (Suc j)
      with k show ?thesis by (simp add: shown_eq)
    qed
  qed
qed


lemma shown_char:
  "shown (Suc cx) cy (l # ls) (buf(cy := (buf cy)(cx := [c]))) = shown cx cy ((c # l) # ls) buf"
proof (intro ext)
  fix y x
  show "shown (Suc cx) cy (l # ls) (buf(cy := (buf cy)(cx := [c]))) y x
      = shown cx cy ((c # l) # ls) buf y x"
  proof (cases "y = cy")
    case False
    then show ?thesis
      by (cases "y - cy") (simp_all add: shown_eq)
  next
    case True
    show ?thesis
    proof (cases "cx < x")
      case False
      with True show ?thesis by (cases "x = cx") (simp_all add: shown_eq)
    next
      case xl: True
      then obtain k where k: "x = Suc (cx + k)" using less_imp_Suc_add by blast
      with True show ?thesis by (simp add: shown_eq)
    qed
  qed
qed

lemma feed_shown:
  assumes "\<forall>c\<in>set data. printable c \<or> c = newline"
    and "cursor_y scr + length (split_nl data) \<le> lines scr"
    and "cursor_x scr + length (hd (split_nl data)) \<le> columns scr"
    and "\<forall>l\<in>set (tl (split_nl data)). length l \<le> columns scr"
  shows "buffer (feed scr data) = shown (cursor_x scr) (cursor_y scr) (split_nl data) (buffer scr) \<and>
         columns (feed scr data) = columns scr \<and> lines (feed scr data) = lines scr"
  using assms
proof (induction data arbitrary: scr)
  case Nil
  have "shown (cursor_x scr) (cursor_y scr) [[]] (buffer scr) y x = buffer scr y x" for y x
    by (cases "y - cursor_y scr") (simp_all add: shown_eq)
  then show ?case by (simp add: fun_eq_iff)
next
  case (Cons c cs)
  obtain l ls where ls: "split_nl cs = l # ls" by (cases "split_nl cs") simp_all
  have ok: "\<forall>c\<in>set cs. printable c \<or> c = newline" using Cons.prems(1) by simp
  show ?case
  proof (cases "c = newline")
    case True
    let ?scr = "scr\<lparr>cursor_x := 0, cursor_y := cursor_y scr + 1\<rparr>"
    have pc: "put_char c scr = ?scr" using True by (simp add: put_char_def)
    have sp: "split_nl (c # cs) = [] # split_nl cs" using True by simp
    have a: "cursor_y ?scr + length (split_nl cs) \<le> lines ?scr"
      using Cons.prems(2) sp ls by simp
    have b: "cursor_x ?scr + length (hd (split_nl cs)) \<le> columns ?scr"
      using Cons.prems(4) sp ls by simp
    have d: "\<forall>l\<in>set (tl (split_nl cs)). length l \<le> columns ?scr"
      using Cons.prems(4) sp ls by simp
    from Cons.IH[OF ok a b d]
    have ih: "buffer (feed ?scr cs) = shown 0 (Suc (cursor_y scr)) (split_nl cs) (buffer scr)"
      "columns (feed ?scr cs) = columns scr" "lines (feed ?scr cs) = lines scr"
      by simp_all
    show ?thesis
      unfolding feed_Cons pc sp
      using ih shown_newline[of "cursor_y scr" "split_nl cs" "buffer scr" "cursor_x scr"]
      by simp
  next
    case False
    then have pr: "printable c" using Cons.prems(1) by simp
    have sp: "split_nl (c # cs) = (c # l) # ls" using False ls by simp
    have ingrid: "cursor_x scr < columns scr" "cursor_y scr < lines scr"
      using Cons.prems(2,3) sp by simp_all
    let ?scr = "scr\<lparr>buffer := (buffer scr)(cursor_y scr := (buffer scr (cursor_y scr))
                                  (cursor_x scr := [c])),
                     cursor_x := cursor_x scr + 1\<rparr>"
    have pc: "put_char c scr = ?scr" using False pr ingrid by (simp add: put_char_def)
    have a: "cursor_y ?scr + length (split_nl cs) \<le> lines ?scr"
      using Cons.prems(2) sp ls by simp
    have b: "cursor_x ?scr + length (hd (split_nl cs)) \<le> columns ?scr"
      using Cons.prems(3) sp ls by simp
    have d: "\<forall>l\<in>set (tl (split_nl cs)). length l \<le> columns ?scr"
      using Cons.prems(4) sp ls by simp
    have f: "cursor_x ?scr = Suc (cursor_x scr)" "cursor_y ?scr = cursor_y scr"
      "columns ?scr = columns scr" "lines ?scr = lines scr"
      "buffer ?scr = (buffer scr)(cursor_y scr := (buffer scr (cursor_y scr))(cursor_x scr := [c]))"
      by simp_all
    from Cons.IH[OF ok a b d]
    have ih: "buffer (feed ?scr cs) = shown (Suc (cursor_x scr)) (cursor_y scr) (l # ls)
                 ((buffer scr)(cursor_y scr := (buffer scr (cursor_y scr))(cursor_x scr := [c]))) \<and>
      columns (feed ?scr cs) = columns scr \<and> lines (feed ?scr cs) = lines scr"
      by (simp only: f ls)
    show ?thesis
      unfolding feed_Cons pc sp
      using ih shown_char[of "cursor_x scr" "cursor_y scr" l ls "buffer scr" c]
      by (simp only:)
  qed
qed


lemma concat_replicate_single: "concat (replicate n [c]) = replicate n c"
  by (induction n) simp_all

lemma concat_cells:
  assumes "length l \<le> w"
  shows "concat (map (\<lambda>x. if x < length l then [l ! x] else '' '') [0..<w])
         = l @ replicate (w - length l) CHR '' ''"
proof -
  have sp: "[0..<w] = [0..<length l] @ [length l..<w]"
    using assms by (metis le_add_diff_inverse upt_add_eq_append zero_le)
  have "map (\<lambda>x. if x < length l then [l ! x] else '' '') [0..<length l]
        = map (\<lambda>x. [l ! x]) [0..<length l]"
    by (rule map_cong) simp_all
  then have "concat (map (\<lambda>x. if x < length l then [l ! x] else '' '') [0..<length l])
        = concat (map (\<lambda>x. [l ! x]) [0..<length l])"
    by (rule arg_cong)
  also have "\<dots> = map (\<lambda>x. l ! x) [0..<length l]" by (rule concat_map_singleton)
  also have "\<dots> = l" by (rule map_nth)
  finally have a:
    "concat (map (\<lambda>x. if x < length l then [l ! x] else '' '') [0..<length l]) = l" .
  have "map (\<lambda>x. if x < length l then [l ! x] else '' '') [length l..<w]
        = map (\<lambda>x. '' '') [length l..<w]"
    by (rule map_cong) simp_all
  then have "concat (map (\<lambda>x. if x < length l then [l ! x] else '' '') [length l..<w])
        = concat (map (\<lambda>x. '' '') [length l..<w])"
    by (rule arg_cong)
  also have "\<dots> = replicate (w - length l) CHR '' ''"
    by (simp add: map_replicate_const concat_replicate_single)
  finally have b:
    "concat (map (\<lambda>x. if x < length l then [l ! x] else '' '') [length l..<w])
         = replicate (w - length l) CHR '' ''" .
  show ?thesis by (subst sp) (simp only: map_append concat_append a b)
qed

lemma rstrip_pad: "rstrip (l @ replicate k CHR '' '') = rstrip l"
proof -
  have "dropWhile isspace (replicate k CHR '' '' @ rev l) = dropWhile isspace (rev l)"
    by (induction k) (simp_all add: isspace_def)
  then show ?thesis by (simp add: rstrip_def)
qed

lemma rstrip_blank: "rstrip (replicate k CHR '' '') = []"
  using rstrip_pad[of "[]" k] by (simp add: rstrip_def)

lemma isspace_printable: "printable c \<Longrightarrow> isspace c = (c = CHR '' '')"
  by (auto simp: isspace_def printable_def)

lemma rstrip_printable:
  assumes "\<forall>c\<in>set l. printable c"
  shows "rstrip l = rstrip_spaces l"
proof -
  have "dropWhile isspace (rev l) = dropWhile (\<lambda>c. c = CHR '' '') (rev l)"
    using assms by (intro dropWhile_cong) (simp_all add: isspace_printable)
  then show ?thesis by (simp add: rstrip_def rstrip_spaces_def)
qed

lemma split_nl_chars:
  "l \<in> set (split_nl data) \<Longrightarrow> c \<in> set l \<Longrightarrow> c \<in> set data \<and> c \<noteq> newline"
proof (induction data arbitrary: l)
  case Nil
  then show ?case by simp
next
  case (Cons d ds)
  obtain l0 ls where ls: "split_nl ds = l0 # ls" by (cases "split_nl ds") simp_all
  show ?case
  proof (cases "d = newline")
    case True
    with Cons.prems have "l \<in> set (split_nl ds)" by auto
    from Cons.IH[OF this Cons.prems(2)] show ?thesis by simp
  next
    case False
    with Cons.prems(1) ls have "l = d # l0 \<or> l \<in> set ls" by simp
    then show ?thesis
    proof
      assume l: "l = d # l0"
      show ?thesis
      proof (cases "c = d")
        case True
        with False show ?thesis by simp
      next
        case cd: False
        with l Cons.prems(2) have "c \<in> set l0" by simp
        moreover have "l0 \<in> set (split_nl ds)" using ls by simp
        ultimately show ?thesis using Cons.IH by simp
      qed
    next
      assume "l \<in> set ls"
      then have "l \<in> set (split_nl ds)" using ls by simp
      from Cons.IH[OF this Cons.prems(2)] show ?thesis by simp
    qed
  qed
qed


lemma row_text_fed:
  assumes "\<forall>c\<in>set data. printable c \<or> c = newline"
    and "length (split_nl data) \<le> h"
    and "\<forall>l\<in>set (split_nl data). length l \<le> w"
  shows "columns (feed (new_screen w h) data) = w \<and> lines (feed (new_screen w h) data) = h \<and>
         row_text (feed (new_screen w h) data) y =
           (if y < length (split_nl data)
            then split_nl data ! y @ replicate (w - length (split_nl data ! y)) CHR '' ''
            else replicate w CHR '' '')"
proof -
  let ?ls = "split_nl data"
  let ?scr = "new_screen w h"
  have hd: "hd ?ls \<in> set ?ls" by simp
  have tl: "\<forall>l\<in>set (tl ?ls). length l \<le> columns ?scr"
    using assms(3) by (auto simp: new_screen_def dest: list.set_sel(2)[rotated])
  have "cursor_y ?scr + length ?ls \<le> lines ?scr" "cursor_x ?scr + length (hd ?ls) \<le> columns ?scr"
    using assms(2,3) hd by (simp_all add: new_screen_def)
  from feed_shown[OF assms(1) this tl]
  have fs: "buffer (feed ?scr data) = shown 0 0 ?ls (\<lambda>y x. '' '')"
    "columns (feed ?scr data) = w" "lines (feed ?scr data) = h"
    by (simp_all add: new_screen_def)
  have cell: "shown 0 0 ?ls (\<lambda>y x. '' '') y x =
      (if y < length ?ls \<and> x < length (?ls ! y) then [?ls ! y ! x] else '' '')" for x
    by (cases y) (simp_all add: shown_eq)
  have rt: "row_text (feed ?scr data) y =
      concat (map (\<lambda>x. if y < length ?ls \<and> x < length (?ls ! y) then [?ls ! y ! x] else '' '')
                [0..<w])"
    by (simp only: row_text_def fs cell)
  show ?thesis
  proof (cases "y < length ?ls")
    case True
    then have "length (?ls ! y) \<le> w" using assms(3) by simp
    from concat_cells[OF this] True show ?thesis by (simp add: rt fs)
  next
    case False
    then show ?thesis
      by (simp add: rt fs map_replicate_const concat_replicate_single)
  qed
qed

text \<open>
  Claim C9. The emulator that \<open>feed\<close> drives is not part of the sources and is modelled
  from the spec; the rendering is \<open>get_screen_text\<close> of the source. For a text of plain
  printable characters and newlines whose lines fit a fresh grid of \<open>w\<close> columns and \<open>h\<close>
  rows, feeding it and rendering the screen gives those lines, one per row and each with
  its trailing spaces trimmed, followed by an empty row for every row of the grid that
  is left.
\<close>

theorem render_reproduces_lines:
  assumes "\<forall>c\<in>set data. printable c \<or> c = newline"
    and "length (split_nl data) \<le> h"
    and "\<forall>l\<in>set (split_nl data). length l \<le> w"
  shows "get_screen_text (Some (feed (new_screen w h) data)) =
           join_nl (map rstrip_spaces (split_nl data) @
                    replicate (h - length (split_nl data)) [])"
proof -
  let ?ls = "split_nl data"
  let ?scr = "feed (new_screen w h) data"
  note rt = row_text_fed[OF assms]
  have sp: "[0..<h] = [0..<length ?ls] @ [length ?ls..<h]"
    using assms(2) by (metis le_add_diff_inverse upt_add_eq_append zero_le)
  have a: "map (\<lambda>y. rstrip (row_text ?scr y)) [0..<length ?ls] = map rstrip_spaces ?ls"
  proof -
    have "map (\<lambda>y. rstrip (row_text ?scr y)) [0..<length ?ls]
        = map (\<lambda>y. rstrip_spaces (?ls ! y)) [0..<length ?ls]"
    proof (rule map_cong)
      fix y assume "y \<in> set [0..<length ?ls]"
      then have y: "y < length ?ls" by simp
      then have "\<forall>c\<in>set (?ls ! y). printable c"
        using split_nl_chars[of "?ls ! y" data] assms(1) by (metis nth_mem)
      then have "rstrip (?ls ! y) = rstrip_spaces (?ls ! y)" by (rule rstrip_printable)
      then show "rstrip (row_text ?scr y) = rstrip_spaces (?ls ! y)"
        using rt[of y] y by (simp add: rstrip_pad)
    qed simp
    also have "\<dots> = map rstrip_spaces (map (\<lambda>y. ?ls ! y) [0..<length ?ls])" by simp
    also have "\<dots> = map rstrip_spaces ?ls" by (simp only: map_nth)
    finally show ?thesis .
  qed
  have b: "map (\<lambda>y. rstrip (row_text ?scr y)) [length ?ls..<h]
         = replicate (h - length ?ls) []"
  proof -
    have "map (\<lambda>y. rstrip (row_text ?scr y)) [length ?ls..<h]
        = map (\<lambda>y. []) [length ?ls..<h]"
    proof (rule map_cong)
      fix y assume "y \<in> set [length ?ls..<h]"
      then have "\<not> y < length ?ls" by simp
      then show "rstrip (row_text ?scr y) = []" using rt[of y] by (simp add: rstrip_blank)
    qed simp
    then show ?thesis by (simp add: map_replicate_const)
  qed
  have "get_screen_text (Some ?scr) = join_nl (map (\<lambda>y. rstrip (row_text ?scr y)) [0..<h])"
    using rt[of 0] by (simp add: get_screen_text_def)
  also have "\<dots> = join_nl (map rstrip_spaces ?ls @ replicate (h - length ?ls) [])"
    by (subst sp) (simp only: map_append a b)
  finally show ?thesis .
qed

section \<open>Concrete runs\<close>

theorem send_and_expect_result_witness:
  "pausing chat_env \<and> clock_advances chat_env \<and> valid_pattern chat_env COM_MODE_PROMPT \<and>
   (\<exists>r s'. send_and_expect chat_env ''com'' COM_MODE_PROMPT 5 shell_session = Some (Inr r, s') \<and>
      r = \<lparr>success = True, output_text = ''COM> '', error = [], exit_code = 0, duration = 1 / 2\<rparr> \<and>
      expect_buffer s' = ''COM> '' \<and> written s' = [''com'' @ [newline]])"
proof -
  have ev: "map_option fst (send_and_expect chat_env ''com'' COM_MODE_PROMPT 5 shell_session) =
      Some (Inr \<lparr>success = True, output_text = ''COM> '', error = [], exit_code = 0,
                 duration = 1 / 2\<rparr>)"
    by code_simp
  have w0: "written shell_session = []" "writer shell_session \<noteq> None"
    "writes chat_env (nwrites shell_session)"
    by (simp_all add: shell_session_def written_def new_com_connection_def new_connection_def
        chat_env_def)
  from send_and_expect_result[OF chat_env_pausing chat_env_clock chat_env_valid,
      where command = "''com''" and pattern = COM_MODE_PROMPT and timeout = 5
        and s = shell_session] w0
  obtain r s' where
    r: "send_and_expect chat_env ''com'' COM_MODE_PROMPT 5 shell_session = Some (Inr r, s')"
      "expect_buffer s' = chunk_text chat_env (nreads shell_session) (nreads s')"
      "written s' = [''com'' @ [newline]]"
      "output_text r = chunk_text chat_env (nreads shell_session) (nreads s')"
    by auto
  from ev r(1) have "r = \<lparr>success = True, output_text = ''COM> '', error = [], exit_code = 0,
      duration = 1 / 2\<rparr>" by simp
  moreover from this r(2,4) have "expect_buffer s' = ''COM> ''" by simp
  ultimately show ?thesis
    using r(1,3) chat_env_pausing chat_env_clock chat_env_valid by blast
qed



theorem expect_never_returns_under_flood_witness:
  "expect flood_env ''COM>'' 5 shell_session = None \<and>
   send_and_expect flood_env ''w'' ''COM>'' 5 shell_session = None"
  using expect_never_returns_under_flood [of shell_session flood_env 5 "''COM>''" "''w''"]
  by (simp add: flood_env_def chat_env_def shell_session_def new_com_connection_def
      new_connection_def flows_def)

theorem switch_room_never_returns_under_flood_witness:
  "in_com chat_session \<and> switch_room flood_env ''hackers'' chat_session = None"
  using switch_room_never_returns_under_flood [of chat_session flood_env "''hackers''"]
  by (simp add: flood_env_def chat_env_def chat_session_def shell_session_def
      new_com_connection_def new_connection_def flows_def)

theorem invoke_shell_replaces_shell_witness:
  "connected shell_session \<and> \<not> flows (reads chat_env (nreads shell_session + 1)) \<and>
   (\<exists>s'. invoke_shell chat_env shell_session = Some (True, s') \<and> process s' = Some 1 \<and>
         writer s' = Some 1 \<and> reader s' = Some 1)"
proof -
  have h: "connected shell_session" "\<not> flows (reads chat_env (nreads shell_session + 1))"
    "creates chat_env (ncreates shell_session)" "ncreates shell_session = 1"
    by (simp_all add: shell_session_def new_com_connection_def new_connection_def chat_env_def
        flows_def)
  from invoke_shell_replaces_shell[OF h(1,2)] h show ?thesis by auto
qed

theorem invoke_shell_not_idempotent:
  "shell_summary shell_session = (True, Some 0, Some 0, Some 0, ''$'' @ [newline]) \<and>
   map_option (apsnd shell_summary) (invoke_shell chat_env shell_session) =
     Some (True, True, Some 1, Some 1, Some 1, ''COM>'' @ [newline])"
  by code_simp

lemma good_com_env_reliable: "reliable good_com_env"
  by (simp add: reliable_def good_com_env_def)

theorem chat_operations_and_chat_mode_witness:
  "\<not> in_com shell_session \<and> reliable good_com_env \<and> send_callback fresh_client \<and>
   cstate fresh_client \<noteq> IN_COM \<and>
   send_message chat_env ''hello'' shell_session = (False, shell_session) \<and>
   fst (com_send_message good_com_env ''hello'' fresh_client) \<and>
   sent (snd (com_send_message good_com_env ''hello'' fresh_client))
     = [''com'', ''g hackers'', ''hello'']"
proof -
  have h: "\<not> in_com shell_session" "send_callback fresh_client" "cstate fresh_client \<noteq> IN_COM"
    "sent fresh_client = []" "enter_commands fresh_client = [''com'', ''g hackers'']"
    by (simp_all add: shell_session_def new_com_connection_def new_connection_def
        fresh_client_def enter_commands_def)
  from chat_operations_and_chat_mode[of shell_session chat_env "''hello''" "''bob''" "''lobby''"
      good_com_env fresh_client "''w''"] h good_com_env_reliable
  show ?thesis by simp
qed

theorem send_message_fails_outside_chat_mode:
  "\<not> in_com shell_session \<and> writer shell_session = Some 0 \<and> connected shell_session \<and>
   in_shell shell_session \<and>
   send_message chat_env ''hello'' shell_session = (False, shell_session)"
  by (simp add: send_message_def shell_session_def new_com_connection_def new_connection_def)



theorem render_reproduces_lines_witness:
  "split_nl (''ab '' @ [newline] @ ''cd'') = [''ab '', ''cd''] \<and>
   get_screen_text (Some (feed (new_screen 5 3) (''ab '' @ [newline] @ ''cd'')))
     = ''ab'' @ [newline] @ ''cd'' @ [newline]"
proof -
  have h: "\<forall>c\<in>set (''ab '' @ [newline] @ ''cd''). printable c \<or> c = newline"
    "length (split_nl (''ab '' @ [newline] @ ''cd'')) \<le> 3"
    "\<forall>l\<in>set (split_nl (''ab '' @ [newline] @ ''cd'')). length l \<le> 5"
    by (simp_all add: printable_def newline_def)
  from render_reproduces_lines[OF h] show ?thesis
    by (simp add: rstrip_spaces_def newline_def eval_nat_numeral)
qed

lemma refusing_env_live: "pausing refusing_env" "clock_advances refusing_env"
  using chat_env_pausing chat_env_clock
  by (simp_all add: pausing_def clock_advances_def refusing_env_def)

lemma mute_env_live: "pausing mute_env" "clock_advances mute_env"
proof -
  show "pausing mute_env" using chat_env_pausing by (simp add: pausing_def mute_env_def)
  have "\<And>x :: real. \<exists>k :: nat. x \<le> real k" using real_arch_simple by blast
  then show "clock_advances mute_env"
    by (simp add: clock_advances_def mute_env_def mono_def)
qed

lemma mute_session_run:
  "map_option (apsnd session_summary) (auto_reconnect mute_env lost_session) =
     Some (False, True, True, ''hackers'', 2, [5, 10, 20, 40, 60],
           [''com'' @ [newline], ''com'' @ [newline], ''com'' @ [newline],
            ''com'' @ [newline], ''com'' @ [newline]])"
  by code_simp


theorem auto_reconnect_gives_up_witness:
  "pausing mute_env \<and> clock_advances mute_env \<and> \<not> connected lost_session \<and>
   connects mute_env (nconnects lost_session) = Established \<and>
   re_search mute_env COM_MODE_PROMPT ''COM> '' = Some False \<and>
   map_option (apsnd session_summary) (auto_reconnect mute_env lost_session) =
     Some (False, True, True, ''hackers'', 2, [5, 10, 20, 40, 60],
           [''com'' @ [newline], ''com'' @ [newline], ''com'' @ [newline],
            ''com'' @ [newline], ''com'' @ [newline]]) \<and>
   (\<exists>s'. auto_reconnect mute_env lost_session = Some (False, s') \<and>
         backoffs s' = [5, 10, 20, 40, 60]) \<and>
   pausing refusing_env \<and> clock_advances refusing_env \<and>
   (\<exists>s'. auto_reconnect refusing_env lost_session = Some (False, s') \<and> \<not> connected s' \<and>
         nconnects s' = 6 \<and> written s' = [] \<and> backoffs s' = [5, 10, 20, 40, 60])"
proof -
  have h: "\<not> connected lost_session" "\<forall>k. connects refusing_env k \<noteq> Established"
    "nconnects lost_session = 1" "written lost_session = []" "backoffs lost_session = []"
    by (simp_all add: lost_session_def new_com_connection_def new_connection_def
        refusing_env_def written_def backoffs_def)
  have m: "\<forall>b. re_search mute_env COM_MODE_PROMPT b \<noteq> Some True"
    "connects mute_env (nconnects lost_session) = Established"
    "re_search mute_env COM_MODE_PROMPT ''COM> '' = Some False"
    by (simp_all add: mute_env_def)
  then have a: "\<forall>s1 s2. attempt mute_env s1 \<noteq> Some (True, s2)"
    using attempt_needs_prompt by blast
  note t1 = auto_reconnect_gives_up[of mute_env lost_session]
  note t2 = auto_reconnect_gives_up[of refusing_env lost_session]
  have c1: "\<exists>s'. auto_reconnect mute_env lost_session = Some (False, s') \<and>
         backoffs s' = [5, 10, 20, 40, 60]"
    using t1 m(1) a mute_env_live h(5) by simp
  have c2: "\<exists>s'. auto_reconnect refusing_env lost_session = Some (False, s') \<and>
         \<not> connected s' \<and> nconnects s' = 6 \<and> written s' = [] \<and>
         backoffs s' = [5, 10, 20, 40, 60]"
    using t2 h by simp
  from c1 c2 h(1) m(2,3) mute_env_live refusing_env_live mute_session_run show ?thesis
    by simp
qed





end
